theory Spec2Isabelle
  imports Main "HOL-Library.Word" "HOL-Library.Sublist"
begin

unbundle bit_operations_syntax

section \<open>Machine types of kernel.c\<close>

text \<open>
  \<^verbatim>\<open>uint8_t\<close> and \<^verbatim>\<open>unsigned char\<close> are 8-bit words, \<^verbatim>\<open>uint16_t\<close> is a
  16-bit word, \<^verbatim>\<open>int32_t\<close> and \<^verbatim>\<open>int\<close> (the type every narrower operand of
  \<^verbatim>\<open>|\<close> and \<^verbatim>\<open><<\<close> is promoted to) are 32-bit words. A conversion to a
  narrower unsigned type keeps the low bits (\<open>ucast\<close>).
\<close>

type_synonym byte = "8 word"
type_synonym uint16 = "16 word"
type_synonym int32 = "32 word"

section \<open>The VGA colour enumeration and the two packing functions\<close>

text \<open>\<^verbatim>\<open>enum vga_color\<close>, lines 10 to 27, with the value of each enumerator.\<close>

datatype vga_color =
    VGA_COLOR_BLACK
  | VGA_COLOR_BLUE
  | VGA_COLOR_GREEN
  | VGA_COLOR_CYAN
  | VGA_COLOR_RED
  | VGA_COLOR_MAGENTA
  | VGA_COLOR_BROWN
  | VGA_COLOR_LIGHT_GREY
  | VGA_COLOR_DARK_GREY
  | VGA_COLOR_LIGHT_BLUE
  | VGA_COLOR_LIGHT_GREEN
  | VGA_COLOR_LIGHT_CYAN
  | VGA_COLOR_LIGHT_RED
  | VGA_COLOR_LIGHT_MAGENTA
  | VGA_COLOR_LIGHT_BROWN
  | VGA_COLOR_WHITE

fun vga_color_val :: "vga_color \<Rightarrow> int32" where
  "vga_color_val VGA_COLOR_BLACK = 0"
| "vga_color_val VGA_COLOR_BLUE = 1"
| "vga_color_val VGA_COLOR_GREEN = 2"
| "vga_color_val VGA_COLOR_CYAN = 3"
| "vga_color_val VGA_COLOR_RED = 4"
| "vga_color_val VGA_COLOR_MAGENTA = 5"
| "vga_color_val VGA_COLOR_BROWN = 6"
| "vga_color_val VGA_COLOR_LIGHT_GREY = 7"
| "vga_color_val VGA_COLOR_DARK_GREY = 8"
| "vga_color_val VGA_COLOR_LIGHT_BLUE = 9"
| "vga_color_val VGA_COLOR_LIGHT_GREEN = 10"
| "vga_color_val VGA_COLOR_LIGHT_CYAN = 11"
| "vga_color_val VGA_COLOR_LIGHT_RED = 12"
| "vga_color_val VGA_COLOR_LIGHT_MAGENTA = 13"
| "vga_color_val VGA_COLOR_LIGHT_BROWN = 14"
| "vga_color_val VGA_COLOR_WHITE = 15"

text \<open>
  \<^verbatim>\<open>return fg | bg << 4;\<close> An object of an enumerated type is an integer, so
  the function is modelled on the 32-bit values of its two arguments; the shift binds
  tighter than the bitwise or, and the \<^verbatim>\<open>uint8_t\<close> result keeps the low 8 bits.
\<close>

definition vga_entry_color :: "int32 \<Rightarrow> int32 \<Rightarrow> byte" where
  "vga_entry_color fg bg = ucast (fg OR push_bit 4 bg)"

text \<open>
  \<^verbatim>\<open>return (uint16_t) uc | (uint16_t) color << 8;\<close> Both casts widen to 16
  bits, the integer promotions widen both operands to \<^verbatim>\<open>int\<close> before the shift
  and the or, and the \<^verbatim>\<open>uint16_t\<close> result keeps the low 16 bits.
\<close>

definition vga_entry :: "byte \<Rightarrow> byte \<Rightarrow> uint16" where
  "vga_entry uc color =
     ucast ((ucast (ucast uc :: uint16) :: int32)
            OR push_bit 8 (ucast (ucast color :: uint16) :: int32))"

section \<open>strlen\<close>

text \<open>
  The argument is the byte sequence that starts at \<^verbatim>\<open>str\<close> and ends with the
  object it points into. The loop reads \<^verbatim>\<open>str[len]\<close> and counts up while the byte
  is not zero. A read past the end of the object is undefined behaviour in C: the model
  returns \<open>None\<close> there. \<^verbatim>\<open>len\<close> never exceeds the length of the object, which
  fits a \<^verbatim>\<open>size_t\<close>, so the counter is a natural number.
\<close>

function strlen_loop :: "byte list \<Rightarrow> nat \<Rightarrow> nat option" where
  "strlen_loop str len =
     (if length str \<le> len then None
      else if str ! len \<noteq> 0 then strlen_loop str (len + 1)
      else Some len)"
  by pat_completeness auto
termination
  by (relation "measure (\<lambda>(str, len). length str - len)") auto

declare strlen_loop.simps [simp del]

definition strlen :: "byte list \<Rightarrow> nat option" where
  "strlen str = strlen_loop str 0"

section \<open>The constants and the global of kernel.c\<close>

definition VGA_WIDTH :: nat where
  "VGA_WIDTH = 80"

definition VGA_HEIGHT :: nat where
  "VGA_HEIGHT = 25"

text \<open>\<^verbatim>\<open>char line[100];\<close> The size of the array of \<^verbatim>\<open>kernel_main\<close>.\<close>

definition LINE_SIZE :: nat where
  "LINE_SIZE = 100"

section \<open>kernel\_main as a transition system\<close>

text \<open>
  The four functions that kernel.c declares \<^verbatim>\<open>extern\<close> are parameters of the
  model. A callee is a function of what it can see: the display driver works on a
  state of some type \<open>'d\<close> that \<^verbatim>\<open>kernel_main\<close> never looks into;
  \<^verbatim>\<open>int_to_string\<close> gets the value, the bytes of the buffer it is handed and the
  radix, and gives the bytes of the buffer afterwards and the pointer it returns, as
  an offset into the buffer; \<^verbatim>\<open>print_string\<close> gets the bytes from the pointer
  it is handed to the end of the array. Every call is taken to return.
\<close>

record 'd externs =
  ext_clear_screen :: "'d \<Rightarrow> 'd"
  ext_print_string :: "byte list \<Rightarrow> 'd \<Rightarrow> 'd"
  ext_print_nl :: "'d \<Rightarrow> 'd"
  ext_int_to_string :: "int32 \<Rightarrow> byte list \<Rightarrow> int32 \<Rightarrow> byte list \<times> nat"

text \<open>
  A call that \<^verbatim>\<open>kernel_main\<close> makes, with its arguments. A pointer argument is
  the offset into \<^verbatim>\<open>line\<close> that it points to: \<^verbatim>\<open>line\<close> itself is offset 0.
\<close>

datatype call =
    Call_clear_screen
  | Call_int_to_string int32 nat int32
  | Call_print_string nat
  | Call_print_nl

text \<open>The program points of \<^verbatim>\<open>kernel_main\<close>, lines 51 to 61.\<close>

datatype label =
    At_clear_screen
  | At_while
  | At_for_init
  | At_for_test
  | At_int_to_string
  | At_print_string
  | At_print_nl
  | At_for_inc
  | Returned

text \<open>
  The state: the program point, the loop counter \<^verbatim>\<open>i\<close>, the bytes of
  \<^verbatim>\<open>line\<close>, the state of the display driver and the calls made so far, oldest
  first. \<^verbatim>\<open>line\<close> is declared in the body of the \<^verbatim>\<open>while\<close> loop, so its
  bytes are indeterminate at the start of every pass: the model leaves in it whatever
  the pass before wrote.
\<close>

record 'd kstate =
  pc :: label
  var_i :: int32
  var_line :: "byte list"
  world :: 'd
  calls :: "call list"

text \<open>
  One step per statement or loop test. The value \<^verbatim>\<open>int_to_string\<close> returns is
  not used by line 56, and line 57 passes \<^verbatim>\<open>line\<close>. \<^verbatim>\<open>i <= 35\<close> compares
  signed 32-bit integers. A state at \<open>Returned\<close> has left the function and does
  not move.
\<close>

definition step :: "'d externs \<Rightarrow> 'd kstate \<Rightarrow> 'd kstate" where
  "step x s =
     (case pc s of
        At_clear_screen \<Rightarrow>
          s\<lparr>pc := At_while, world := ext_clear_screen x (world s),
            calls := calls s @ [Call_clear_screen]\<rparr>
      | At_while \<Rightarrow>
          (if (1 :: int32) \<noteq> 0 then s\<lparr>pc := At_for_init\<rparr> else s\<lparr>pc := Returned\<rparr>)
      | At_for_init \<Rightarrow> s\<lparr>pc := At_for_test, var_i := 1\<rparr>
      | At_for_test \<Rightarrow>
          (if word_sle (var_i s) 35 then s\<lparr>pc := At_int_to_string\<rparr>
           else s\<lparr>pc := At_while\<rparr>)
      | At_int_to_string \<Rightarrow>
          (case ext_int_to_string x (var_i s) (var_line s) 10 of
             (buff, ret) \<Rightarrow>
               s\<lparr>pc := At_print_string, var_line := buff,
                 calls := calls s @ [Call_int_to_string (var_i s) 0 10]\<rparr>)
      | At_print_string \<Rightarrow>
          s\<lparr>pc := At_print_nl, world := ext_print_string x (drop 0 (var_line s)) (world s),
            calls := calls s @ [Call_print_string 0]\<rparr>
      | At_print_nl \<Rightarrow>
          s\<lparr>pc := At_for_inc, world := ext_print_nl x (world s),
            calls := calls s @ [Call_print_nl]\<rparr>
      | At_for_inc \<Rightarrow> s\<lparr>pc := At_for_test, var_i := var_i s + 1\<rparr>
      | Returned \<Rightarrow> s)"

definition run :: "'d externs \<Rightarrow> nat \<Rightarrow> 'd kstate \<Rightarrow> 'd kstate" where
  "run x n s = (step x ^^ n) s"

text \<open>
  The state in which \<^verbatim>\<open>kernel_main\<close> is entered: nothing has been called,
  \<^verbatim>\<open>i\<close> and \<^verbatim>\<open>line\<close> hold whatever the stack held (\<open>i0\<close>, \<open>line0\<close>).
\<close>

definition entry :: "'d \<Rightarrow> int32 \<Rightarrow> byte list \<Rightarrow> 'd kstate" where
  "entry d i0 line0 = \<lparr>pc = At_clear_screen, var_i = i0, var_line = line0, world = d, calls = []\<rparr>"

text \<open>\<^verbatim>\<open>kernel_main\<close>, observed after \<open>n\<close> steps.\<close>

definition kernel_main :: "'d externs \<Rightarrow> nat \<Rightarrow> 'd \<Rightarrow> int32 \<Rightarrow> byte list \<Rightarrow> 'd kstate" where
  "kernel_main x n d i0 line0 = run x n (entry d i0 line0)"

text \<open>
  The calls of one pass of the \<^verbatim>\<open>for\<close> loop with counter \<open>k\<close>, and of one
  pass of the \<^verbatim>\<open>while\<close> loop.
\<close>

definition pass_calls :: "nat \<Rightarrow> call list" where
  "pass_calls k = [Call_int_to_string (of_nat k) 0 10, Call_print_string 0, Call_print_nl]"

definition cycle_calls :: "call list" where
  "cycle_calls = concat (map pass_calls [1..<36])"

text \<open>
  The body of the \<^verbatim>\<open>for\<close> loop with its increment as one transformer of the
  state, and the body of the \<^verbatim>\<open>while\<close> loop likewise: the steps above are shown
  below to compose to them.
\<close>

definition pass :: "'d externs \<Rightarrow> 'd kstate \<Rightarrow> 'd kstate" where
  "pass x s =
     (let buff = fst (ext_int_to_string x (var_i s) (var_line s) 10) in
      s\<lparr>var_i := var_i s + 1, var_line := buff,
        world := ext_print_nl x (ext_print_string x buff (world s)),
        calls := calls s @
          [Call_int_to_string (var_i s) 0 10, Call_print_string 0, Call_print_nl]\<rparr>)"

definition cycle :: "'d externs \<Rightarrow> 'd kstate \<Rightarrow> 'd kstate" where
  "cycle x s = ((pass x ^^ 35) (s\<lparr>pc := At_for_test, var_i := 1\<rparr>))\<lparr>pc := At_while\<rparr>"

text \<open>
  What one pass of the \<^verbatim>\<open>for\<close> loop with counter \<open>i\<close> does to the bytes of
  \<^verbatim>\<open>line\<close> and to the display driver's state, in terms of the external functions:
  \<^verbatim>\<open>int_to_string(i, line, 10)\<close> rewrites \<^verbatim>\<open>line\<close>, \<^verbatim>\<open>print_string(line)\<close>
  gets the bytes that it left, then \<^verbatim>\<open>print_nl()\<close>. And what one pass of the
  \<^verbatim>\<open>while\<close> loop does: the passes for 1 to 35 in increasing order.
\<close>

definition pass_effect :: "'d externs \<Rightarrow> nat \<Rightarrow> byte list \<times> 'd \<Rightarrow> byte list \<times> 'd" where
  "pass_effect x i =
     (\<lambda>(buff, d).
        (fst (ext_int_to_string x (of_nat i) buff 10),
         ext_print_nl x (ext_print_string x (fst (ext_int_to_string x (of_nat i) buff 10)) d)))"

definition cycle_effect :: "'d externs \<Rightarrow> byte list \<times> 'd \<Rightarrow> byte list \<times> 'd" where
  "cycle_effect x = fold (pass_effect x) [1..<36]"

section \<open>The external functions, from their contracts\<close>

text \<open>
  The text at a pointer into a buffer: the bytes from offset \<open>p\<close> up to the first
  zero byte.
\<close>

definition c_string :: "byte list \<Rightarrow> nat \<Rightarrow> byte list" where
  "c_string buff p = takeWhile (\<lambda>b. b \<noteq> 0) (drop p buff)"

text \<open>The bytes of an ASCII text.\<close>

definition ascii :: "string \<Rightarrow> byte list" where
  "ascii s = map of_char s"

text \<open>
  Modelled from the spec: the display driver's state (display.h and its implementation
  are not among the sources). The Display Buffer is the array of 80 x 25 16-bit
  Character Cells in row-major order; the Cursor State is a row and a column; the active
  Color Pair is an attribute byte. \<^verbatim>\<open>terminal_row\<close> is the global that kernel.c
  defines.
\<close>

record display =
  cells :: "uint16 list"
  terminal_row :: nat
  terminal_column :: nat
  terminal_color :: byte

text \<open>
  Modelled from the spec: the blank-cell encoding, a space glyph with the default color
  pair, light grey on black.
\<close>

definition blank_cell :: uint16 where
  "blank_cell =
     vga_entry 0x20 (vga_entry_color (vga_color_val VGA_COLOR_LIGHT_GREY)
                                     (vga_color_val VGA_COLOR_BLACK))"

text \<open>
  Modelled from the spec: a write of one Character Cell at (row, column), at index
  row x 80 + column of the Display Buffer, which is mutated in place and never resized.
  A write at an index outside the buffer leaves the buffer as it is.
\<close>

definition put_cell :: "nat \<Rightarrow> nat \<Rightarrow> uint16 \<Rightarrow> uint16 list \<Rightarrow> uint16 list" where
  "put_cell r c v cs = cs[r * VGA_WIDTH + c := v]"

text \<open>
  Modelled from the spec: the part of \<^verbatim>\<open>clear_screen\<close> (not among the sources)
  that fills the 80 Character Cells of one row with the blank cell.
\<close>

definition clear_row :: "nat \<Rightarrow> uint16 list \<Rightarrow> uint16 list" where
  "clear_row r cs = fold (\<lambda>c. put_cell r c blank_cell) [0..<VGA_WIDTH] cs"

text \<open>
  Modelled from the spec: \<^verbatim>\<open>clear_screen\<close> (not among the sources) fills every
  Character Cell of the Display Buffer with a space glyph and the default color pair,
  and resets the Cursor State to row 0.
\<close>

definition clear_screen :: "display \<Rightarrow> display" where
  "clear_screen d =
     d\<lparr>cells := fold clear_row [0..<VGA_HEIGHT] (cells d),
       terminal_row := 0, terminal_column := 0\<rparr>"

text \<open>
  Modelled from the spec: what \<^verbatim>\<open>print_string\<close> (not among the sources) does with
  one byte: it writes it as a Character Cell at the current cursor position with the
  current Color Pair, and advances the column. The column is not checked against the
  width.
\<close>

definition put_char :: "byte \<Rightarrow> display \<Rightarrow> display" where
  "put_char b d =
     d\<lparr>cells := put_cell (terminal_row d) (terminal_column d)
                        (vga_entry b (terminal_color d)) (cells d),
       terminal_column := terminal_column d + 1\<rparr>"

text \<open>
  Modelled from the spec: \<^verbatim>\<open>print_string\<close> (not among the sources) writes each
  byte of the text it is handed, up to the terminating zero byte, left to right. No
  byte is interpreted as a control character.
\<close>

definition print_string :: "byte list \<Rightarrow> display \<Rightarrow> display" where
  "print_string str d = fold put_char (c_string str 0) d"

text \<open>
  Modelled from the spec: the two policies the spec allows \<^verbatim>\<open>print_nl\<close> at the
  last row, (a) wrap to row 0 and (b) scroll up by one row. The spec leaves the choice
  open, so the policy is a parameter.
\<close>

datatype nl_policy = Wrap | Scroll

text \<open>
  Modelled from the spec: \<^verbatim>\<open>print_nl\<close> (not among the sources) advances the
  Cursor State to the beginning of the next row. When the row index would exceed the
  last row it either wraps to row 0, or scrolls the buffer up by one row, blanks the
  new last row and stays on it.
\<close>

definition print_nl :: "nl_policy \<Rightarrow> display \<Rightarrow> display" where
  "print_nl p d =
     (if terminal_row d + 1 < VGA_HEIGHT
      then d\<lparr>terminal_row := terminal_row d + 1, terminal_column := 0\<rparr>
      else (case p of
              Wrap \<Rightarrow> d\<lparr>terminal_row := 0, terminal_column := 0\<rparr>
            | Scroll \<Rightarrow>
                d\<lparr>cells := drop VGA_WIDTH (cells d) @ replicate VGA_WIDTH blank_cell,
                  terminal_column := 0\<rparr>))"

text \<open>
  Modelled from the spec: the character of one digit in the text that
  \<^verbatim>\<open>int_to_string\<close> (not among the sources) writes, for a radix of 2 to 36. Digits
  above 9 are taken to be lower-case letters.
\<close>

definition digit_char :: "nat \<Rightarrow> byte" where
  "digit_char d = (if d < 10 then 48 + of_nat d else 87 + of_nat d)"

text \<open>
  Modelled from the spec: the digits of a magnitude in the given radix, most significant
  first, as \<^verbatim>\<open>int_to_string\<close> (not among the sources) writes them; zero is the
  single digit 0.
\<close>

function digits_of :: "nat \<Rightarrow> nat \<Rightarrow> byte list" where
  "digits_of radix n =
     (if radix < 2 \<or> n < radix then [digit_char n]
      else digits_of radix (n div radix) @ [digit_char (n mod radix)])"
  by pat_completeness auto
termination
  by (relation "measure (\<lambda>(radix, n). n)") auto

declare digits_of.simps [simp del]

text \<open>
  Modelled from the spec: the textual representation of a signed value that
  \<^verbatim>\<open>int_to_string\<close> (not among the sources) produces: a minus sign for a negative
  value, then the digits of the magnitude. The magnitude is that of the mathematical
  value, so the least 32-bit value has one.
\<close>

definition format_int :: "int \<Rightarrow> nat \<Rightarrow> byte list" where
  "format_int v radix =
     (if v < 0 then 45 # digits_of radix (nat (- v)) else digits_of radix (nat v))"

text \<open>
  Modelled from the spec: \<^verbatim>\<open>int_to_string\<close> (util.h and its implementation are
  not among the sources) converts a signed 32-bit integer to its text in the given
  radix, expected in 2 to 36, into the caller's buffer, with the terminating zero byte,
  and returns a pointer to the start of the written text. The spec does not say where
  in the buffer the text starts: this model writes it at the first byte. \<open>None\<close> is
  a call outside the contract: a radix outside 2 to 36, or a buffer too small for the
  text.
\<close>

definition int_to_string :: "int32 \<Rightarrow> byte list \<Rightarrow> int32 \<Rightarrow> (byte list \<times> nat) option" where
  "int_to_string v buff radix_base =
     (let txt = format_int (sint v) (nat (sint radix_base)) @ [0] in
      if sint radix_base < 2 \<or> 36 < sint radix_base \<or> length buff < length txt then None
      else Some (txt @ drop (length txt) buff, 0))"

text \<open>
  Modelled from the spec: a second function that meets the contract the spec gives for
  \<^verbatim>\<open>int_to_string\<close> (not among the sources). It writes the same text at the end
  of the caller's buffer and returns a pointer to where the text starts.
\<close>

definition int_to_string_tail :: "int32 \<Rightarrow> byte list \<Rightarrow> int32 \<Rightarrow> (byte list \<times> nat) option" where
  "int_to_string_tail v buff radix_base =
     (let txt = format_int (sint v) (nat (sint radix_base)) @ [0] in
      if sint radix_base < 2 \<or> 36 < sint radix_base \<or> length buff < length txt then None
      else Some (take (length buff - length txt) buff @ txt, length buff - length txt))"

text \<open>
  The result of a call as \<^verbatim>\<open>kernel_main\<close> sees it. A call outside the contract,
  which \<^verbatim>\<open>kernel_main\<close> is shown below never to make, leaves the buffer as it is.
\<close>

definition within_contract :: "(byte list \<times> nat) option \<Rightarrow> byte list \<Rightarrow> byte list \<times> nat" where
  "within_contract res buff = (case res of Some r \<Rightarrow> r | None \<Rightarrow> (buff, 0))"

text \<open>
  Modelled from the spec: the four external functions of \<^verbatim>\<open>kernel_main\<close> (none
  of them among the sources), as modelled above.
\<close>

definition spec_externs :: "nl_policy \<Rightarrow> display externs" where
  "spec_externs p =
     \<lparr>ext_clear_screen = clear_screen,
      ext_print_string = print_string,
      ext_print_nl = print_nl p,
      ext_int_to_string = (\<lambda>v buff r. within_contract (int_to_string v buff r) buff)\<rparr>"

text \<open>
  Modelled from the spec: the same external functions, with the second function that
  meets the contract of \<^verbatim>\<open>int_to_string\<close> in place of the first.
\<close>

definition tail_externs :: "nl_policy \<Rightarrow> display externs" where
  "tail_externs p =
     \<lparr>ext_clear_screen = clear_screen,
      ext_print_string = print_string,
      ext_print_nl = print_nl p,
      ext_int_to_string = (\<lambda>v buff r. within_contract (int_to_string_tail v buff r) buff)\<rparr>"

text \<open>The 80 glyph bytes of row \<open>r\<close> of the Display Buffer.\<close>

definition row_glyphs :: "display \<Rightarrow> nat \<Rightarrow> byte list" where
  "row_glyphs d r = map ucast (take VGA_WIDTH (drop (r * VGA_WIDTH) (cells d)))"

text \<open>Row \<open>r\<close> contains the text \<open>txt\<close>: its glyphs are the text, then spaces.\<close>

definition row_shows :: "display \<Rightarrow> nat \<Rightarrow> byte list \<Rightarrow> bool" where
  "row_shows d r txt \<longleftrightarrow> row_glyphs d r = txt @ replicate (VGA_WIDTH - length txt) 0x20"

text \<open>
  A display as \<^verbatim>\<open>kernel_main\<close> may find it, for the concrete runs below: all
  cells zero, the cursor at the origin (\<^verbatim>\<open>terminal_row\<close> is a global without an
  initialiser), the active colour light grey on black.
\<close>

definition boot_display :: display where
  "boot_display =
     \<lparr>cells = replicate (VGA_WIDTH * VGA_HEIGHT) 0, terminal_row = 0, terminal_column = 0,
      terminal_color = vga_entry_color (vga_color_val VGA_COLOR_LIGHT_GREY)
                                       (vga_color_val VGA_COLOR_BLACK)\<rparr>"

text \<open>
  The cell expected at row \<open>r\<close> and column \<open>c\<close>, and the whole buffer expected,
  once the texts of 1 to \<open>j\<close> have been printed with attribute \<open>a\<close> on rows 0 to
  \<open>j - 1\<close> of a cleared screen.
\<close>

definition line_cell :: "byte \<Rightarrow> nat \<Rightarrow> nat \<Rightarrow> nat \<Rightarrow> uint16" where
  "line_cell a j r c =
     (if r < j \<and> c < length (format_int (int r + 1) 10)
      then vga_entry (format_int (int r + 1) 10 ! c) a else blank_cell)"

definition lines_screen :: "byte \<Rightarrow> nat \<Rightarrow> uint16 list" where
  "lines_screen a j =
     map (\<lambda>k. line_cell a j (k div VGA_WIDTH) (k mod VGA_WIDTH)) [0..<VGA_WIDTH * VGA_HEIGHT]"

text \<open>
  The state of \<^verbatim>\<open>kernel_main\<close> at the test of the \<^verbatim>\<open>for\<close> loop when \<open>j\<close>
  passes have been made on a cleared screen and no row has wrapped.
\<close>

definition printed :: "byte \<Rightarrow> nat \<Rightarrow> display kstate \<Rightarrow> bool" where
  "printed a j s \<longleftrightarrow>
     pc s = At_for_test \<and> var_i s = of_nat (Suc j) \<and> length (var_line s) = LINE_SIZE \<and>
     cells (world s) = lines_screen a j \<and> terminal_row (world s) = j \<and>
     terminal_column (world s) = 0 \<and> terminal_color (world s) = a"

section \<open>Properties of the packing functions\<close>

lemma vga_entry_color_bits:
  "bit (vga_entry_color fg bg) n \<longleftrightarrow>
     n < 8 \<and> (bit fg n \<or> (4 \<le> n \<and> bit bg (n - 4)))"
  by (auto simp add: vga_entry_color_def bit_simps)

lemma below_16_bits:
  fixes w :: int32
  assumes "w < 16" and "bit w n"
  shows "n < 4"
proof -
  from assms(1) have "w < 2 ^ 4" by simp
  then have "w AND mask 4 = w" by (rule less_mask_eq)
  then have "take_bit 4 w = w" by (simp add: take_bit_eq_mask)
  with assms(2) have "bit (take_bit 4 w) n" by simp
  then show "n < 4" by (simp add: bit_take_bit_iff)
qed

lemma vga_color_val_below_16: "vga_color_val c < 16"
  by (cases c) simp_all

text \<open>
  C1. For a foreground and a background value below 16, \<^verbatim>\<open>vga_entry_color\<close>
  returns the attribute byte \<open>fg | (bg << 4)\<close>, as a byte and as a number: its bits
  0 to 3 are the foreground and its bits 4 to 7 are the background. Every enumerator of
  \<^verbatim>\<open>enum vga_color\<close> has a value below 16 (\<open>vga_color_val_below_16\<close>).
\<close>

theorem vga_entry_color_packs:
  assumes "fg < 16" and "bg < 16"
  shows "vga_entry_color fg bg = ucast fg OR push_bit 4 (ucast bg) \<and>
         unat (vga_entry_color fg bg) = unat fg OR push_bit 4 (unat bg) \<and>
         take_bit 4 (vga_entry_color fg bg) = ucast fg \<and>
         drop_bit 4 (vga_entry_color fg bg) = ucast bg"
proof (intro conjI)
  show "vga_entry_color fg bg = ucast fg OR push_bit 4 (ucast bg)"
    by (rule bit_eqI) (auto simp add: vga_entry_color_bits bit_simps)
  show "unat (vga_entry_color fg bg) = unat fg OR push_bit 4 (unat bg)"
    using assms
    by (intro bit_eqI)
      (auto simp add: vga_entry_color_bits bit_simps bit_unsigned_iff dest: below_16_bits)
  show "take_bit 4 (vga_entry_color fg bg) = ucast fg"
    using assms
    by (intro bit_eqI) (auto simp add: vga_entry_color_bits bit_simps dest: below_16_bits)
  show "drop_bit 4 (vga_entry_color fg bg) = ucast bg"
    using assms
    by (intro bit_eqI) (auto simp add: vga_entry_color_bits bit_simps dest: below_16_bits)
qed

theorem vga_entry_color_packs_witness:
  "vga_color_val VGA_COLOR_LIGHT_GREY < 16 \<and> vga_color_val VGA_COLOR_BLUE < 16 \<and>
   vga_entry_color (vga_color_val VGA_COLOR_LIGHT_GREY) (vga_color_val VGA_COLOR_BLUE) = 0x17 \<and>
   take_bit 4 (vga_entry_color (vga_color_val VGA_COLOR_LIGHT_GREY)
                               (vga_color_val VGA_COLOR_BLUE)) = 7 \<and>
   drop_bit 4 (vga_entry_color (vga_color_val VGA_COLOR_LIGHT_GREY)
                               (vga_color_val VGA_COLOR_BLUE)) = 1"
  using vga_entry_color_packs [of "vga_color_val VGA_COLOR_LIGHT_GREY" "vga_color_val VGA_COLOR_BLUE"]
  by simp

text \<open>
  C2. For every glyph byte and every attribute byte, \<^verbatim>\<open>vga_entry\<close> returns the
  16-bit value \<open>g | (a << 8)\<close>; the low byte of that value is the glyph and its high
  byte is the attribute.
\<close>

theorem vga_entry_packs:
  "vga_entry g a = ucast g OR push_bit 8 (ucast a) \<and>
   ucast (vga_entry g a) = g \<and>
   ucast (drop_bit 8 (vga_entry g a)) = a"
proof (intro conjI)
  show "vga_entry g a = ucast g OR push_bit 8 (ucast a)"
    by (rule bit_eqI) (auto simp add: vga_entry_def bit_simps)
  show "ucast (vga_entry g a) = g"
    by (rule bit_eqI) (auto simp add: vga_entry_def bit_simps)
  show "ucast (drop_bit 8 (vga_entry g a)) = a"
    by (rule bit_eqI) (auto simp add: vga_entry_def bit_simps dest: bit_imp_le_length)
qed

section \<open>strlen finds the first zero byte\<close>

lemma strlen_loop_finds:
  "len \<le> length str \<Longrightarrow> 0 \<in> set (drop len str) \<Longrightarrow>
   strlen_loop str len = Some (len + length (takeWhile (\<lambda>b. b \<noteq> 0) (drop len str)))"
proof (induction str len rule: strlen_loop.induct)
  case (1 str len)
  from "1.prems" have lt: "len < length str"
    by (cases "len = length str") auto
  then have d: "drop len str = str ! len # drop (Suc len) str"
    by (simp add: Cons_nth_drop_Suc)
  show ?case
  proof (cases "str ! len = 0")
    case True
    with lt d show ?thesis
      by (subst strlen_loop.simps) simp
  next
    case False
    with "1.prems" d have "0 \<in> set (drop (len + 1) str)"
      by auto
    with "1.IH" lt False have "strlen_loop str (len + 1) =
        Some (len + 1 + length (takeWhile (\<lambda>b. b \<noteq> 0) (drop (len + 1) str)))"
      by simp
    with lt d False show ?thesis
      by (subst strlen_loop.simps) simp
  qed
qed

lemma takeWhile_stops:
  "(0::byte) \<in> set str \<Longrightarrow>
   length (takeWhile (\<lambda>b. b \<noteq> 0) str) < length str \<and>
   str ! length (takeWhile (\<lambda>b. b \<noteq> 0) str) = 0"
  by (induction str) auto

lemma takeWhile_before:
  "k < length (takeWhile (\<lambda>b. b \<noteq> (0::byte)) str) \<Longrightarrow> str ! k \<noteq> 0"
proof (induction str arbitrary: k)
  case Nil
  then show ?case by simp
next
  case (Cons a str)
  then show ?case
    by (cases k) (auto split: if_splits)
qed

lemma first_zero_least:
  assumes "(0::byte) \<in> set str"
  shows "(LEAST k. k < length str \<and> str ! k = 0) = length (takeWhile (\<lambda>b. b \<noteq> 0) str)"
proof (rule Least_equality)
  show "length (takeWhile (\<lambda>b. b \<noteq> 0) str) < length str \<and>
        str ! length (takeWhile (\<lambda>b. b \<noteq> 0) str) = 0"
    using assms by (rule takeWhile_stops)
next
  fix y
  assume y: "y < length str \<and> str ! y = 0"
  show "length (takeWhile (\<lambda>b. b \<noteq> 0) str) \<le> y"
  proof (rule ccontr)
    assume "\<not> length (takeWhile (\<lambda>b. b \<noteq> 0) str) \<le> y"
    then have "y < length (takeWhile (\<lambda>b. b \<noteq> 0) str)" by simp
    then have "str ! y \<noteq> 0" by (rule takeWhile_before)
    with y show False by simp
  qed
qed

text \<open>
  C8. On a byte sequence that contains a zero byte, \<^verbatim>\<open>strlen\<close> returns, and what
  it returns is the index of the first zero byte: the least \<open>n\<close> with
  \<open>str[n] = 0\<close>, with no zero byte before it. On a sequence that starts with the
  zero byte (the empty string) it returns 0.
\<close>

theorem strlen_first_zero:
  assumes "0 \<in> set str"
  shows "\<exists>n. strlen str = Some n \<and> n < length str \<and> str ! n = 0 \<and>
             (\<forall>k<n. str ! k \<noteq> 0) \<and>
             n = (LEAST k. k < length str \<and> str ! k = 0) \<and>
             (str ! 0 = 0 \<longrightarrow> n = 0)"
proof -
  let ?n = "length (takeWhile (\<lambda>b. b \<noteq> 0) str)"
  have "strlen str = Some ?n"
    using assms strlen_loop_finds [of 0 str] by (simp add: strlen_def)
  moreover have "?n < length str" and "str ! ?n = 0"
    using assms takeWhile_stops by blast+
  moreover have before: "\<forall>k<?n. str ! k \<noteq> 0"
    using takeWhile_before by blast
  moreover have "?n = (LEAST k. k < length str \<and> str ! k = 0)"
    using assms by (simp add: first_zero_least)
  moreover have "str ! 0 = 0 \<longrightarrow> ?n = 0"
    using before by (cases "?n") auto
  ultimately show ?thesis
    by blast
qed

theorem strlen_first_zero_witness:
  "(0::byte) \<in> set [0x33, 0x35, 0, 0x41, 0] \<and> strlen [0x33, 0x35, 0, 0x41, 0] = Some 2 \<and>
   (0::byte) \<in> set [0] \<and> strlen [0] = Some 0"
proof -
  have a: "(0::byte) \<in> set [0x33, 0x35, 0, 0x41, 0]" by simp
  have b: "(0::byte) \<in> set [0]" by simp
  have "strlen [0x33, 0x35, 0, 0x41, 0] = Some 2"
    using strlen_first_zero [OF a] by (simp add: strlen_def strlen_loop.simps)
  moreover have "strlen [0] = Some 0"
    using strlen_first_zero [OF b] by (simp add: strlen_def strlen_loop.simps)
  ultimately show ?thesis
    by simp
qed

section \<open>The steps of kernel\_main compose to passes and cycles\<close>

lemma sint_small: "k < 2 ^ 31 \<Longrightarrow> sint (of_nat k :: int32) = int k"
  by (simp add: signed_of_nat signed_take_bit_int_eq_self)

lemma sle_35: "k \<le> 36 \<Longrightarrow> word_sle (of_nat k :: int32) 35 \<longleftrightarrow> k \<le> 35"
  by (simp add: word_sle_eq sint_small)

lemma run_0: "run x 0 s = s"
  by (simp add: run_def)

lemma run_Suc: "run x (Suc n) s = run x n (step x s)"
  by (simp add: run_def funpow_swap1)

lemma run_Suc_right: "run x (Suc n) s = step x (run x n s)"
  by (simp add: run_def)

lemma run_add: "run x (m + n) s = run x n (run x m s)"
  by (induction m arbitrary: s) (simp_all add: run_Suc run_0)

lemma step_clear_screen:
  "pc s = At_clear_screen \<Longrightarrow>
   step x s = s\<lparr>pc := At_while, world := ext_clear_screen x (world s),
                 calls := calls s @ [Call_clear_screen]\<rparr>"
  by (simp add: step_def)

lemma step_while: "pc s = At_while \<Longrightarrow> step x s = s\<lparr>pc := At_for_init\<rparr>"
  by (simp add: step_def)

lemma step_for_init: "pc s = At_for_init \<Longrightarrow> step x s = s\<lparr>pc := At_for_test, var_i := 1\<rparr>"
  by (simp add: step_def)

lemma step_for_test:
  "pc s = At_for_test \<Longrightarrow> word_sle (var_i s) 35 \<Longrightarrow> step x s = s\<lparr>pc := At_int_to_string\<rparr>"
  by (simp add: step_def)

lemma step_for_exit:
  "pc s = At_for_test \<Longrightarrow> \<not> word_sle (var_i s) 35 \<Longrightarrow> step x s = s\<lparr>pc := At_while\<rparr>"
  by (simp add: step_def)

lemma step_int_to_string:
  "pc s = At_int_to_string \<Longrightarrow>
   step x s = s\<lparr>pc := At_print_string,
                 var_line := fst (ext_int_to_string x (var_i s) (var_line s) 10),
                 calls := calls s @ [Call_int_to_string (var_i s) 0 10]\<rparr>"
  by (simp add: step_def split: prod.split)

lemma step_print_string:
  "pc s = At_print_string \<Longrightarrow>
   step x s = s\<lparr>pc := At_print_nl, world := ext_print_string x (var_line s) (world s),
                 calls := calls s @ [Call_print_string 0]\<rparr>"
  by (simp add: step_def)

lemma step_print_nl:
  "pc s = At_print_nl \<Longrightarrow>
   step x s = s\<lparr>pc := At_for_inc, world := ext_print_nl x (world s),
                 calls := calls s @ [Call_print_nl]\<rparr>"
  by (simp add: step_def)

lemma step_for_inc:
  "pc s = At_for_inc \<Longrightarrow> step x s = s\<lparr>pc := At_for_test, var_i := var_i s + 1\<rparr>"
  by (simp add: step_def)

lemma run_pass:
  assumes "pc s = At_for_test" and "word_sle (var_i s) 35"
  shows "run x 5 s = pass x s"
proof -
  have "run x 5 s = step x (step x (step x (step x (step x s))))"
    by (simp add: eval_nat_numeral run_Suc run_0)
  also have "\<dots> = pass x s"
    using assms
    by (simp add: step_for_test step_int_to_string step_print_string step_print_nl
        step_for_inc pass_def Let_def)
  finally show ?thesis .
qed

lemma pass_pc: "pc (pass x s) = pc s"
  by (simp add: pass_def Let_def)

lemma pass_i: "var_i (pass x s) = var_i s + 1"
  by (simp add: pass_def Let_def)

lemma pass_calls_eq: "var_i s = of_nat k \<Longrightarrow> calls (pass x s) = calls s @ pass_calls k"
  by (simp add: pass_def Let_def pass_calls_def)

lemma passes_pc: "pc ((pass x ^^ k) s) = pc s"
  by (induction k) (simp_all add: pass_pc)

lemma passes_i: "var_i s = of_nat j \<Longrightarrow> var_i ((pass x ^^ k) s) = of_nat (j + k)"
  by (induction k) (simp_all add: pass_i)

lemma passes_calls:
  assumes "var_i s = of_nat j"
  shows "calls ((pass x ^^ k) s) = calls s @ concat (map pass_calls [j..<j + k])"
proof (induction k)
  case 0
  then show ?case by simp
next
  case (Suc k)
  have "calls (pass x ((pass x ^^ k) s)) = calls ((pass x ^^ k) s) @ pass_calls (j + k)"
    using assms by (intro pass_calls_eq passes_i)
  with Suc show ?case by simp
qed

lemma run_passes:
  assumes "pc s = At_for_test" and "var_i s = 1" and "k \<le> 35"
  shows "run x (5 * k) s = (pass x ^^ k) s"
  using assms(3)
proof (induction k)
  case 0
  then show ?case by (simp add: run_0)
next
  case (Suc k)
  let ?t = "(pass x ^^ k) s"
  have "var_i s = of_nat 1"
    using assms(2) by simp
  then have i: "var_i ?t = of_nat (1 + k)"
    by (rule passes_i)
  have "word_sle (var_i ?t) 35"
    unfolding i using Suc.prems by (subst sle_35) simp_all
  moreover have "pc ?t = At_for_test"
    using assms(1) by (simp add: passes_pc)
  ultimately have "run x 5 ?t = pass x ?t"
    by (rule run_pass [rotated])
  moreover have "run x (5 * Suc k) s = run x 5 (run x (5 * k) s)"
    using run_add [of x "5 * k" 5 s] by (simp add: add.commute)
  ultimately show ?case
    using Suc by simp
qed

lemma run_cycle:
  assumes "pc s = At_while"
  shows "run x 178 s = cycle x s"
proof -
  let ?s2 = "s\<lparr>pc := At_for_test, var_i := 1\<rparr>"
  let ?t = "(pass x ^^ 35) ?s2"
  have "run x 2 s = step x (step x s)"
    by (simp add: eval_nat_numeral run_Suc run_0)
  also have "\<dots> = ?s2"
    using assms by (simp add: step_while step_for_init)
  finally have two: "run x 2 s = ?s2" .
  have "run x (5 * 35) ?s2 = ?t"
    by (rule run_passes) simp_all
  then have mid: "run x 175 ?s2 = ?t"
    by simp
  have "var_i ?s2 = of_nat 1"
    by simp
  then have "var_i ?t = of_nat (1 + 35)"
    by (rule passes_i)
  then have "\<not> word_sle (var_i ?t) 35"
    by (simp add: word_sle_eq)
  moreover have "pc ?t = At_for_test"
    by (simp add: passes_pc)
  ultimately have last: "step x ?t = ?t\<lparr>pc := At_while\<rparr>"
    by (rule step_for_exit [rotated])
  have "run x (2 + 175 + 1) s = run x 1 (run x 175 (run x 2 s))"
    by (simp only: run_add)
  then have "run x 178 s = step x (run x 175 (run x 2 s))"
    by (simp add: run_Suc run_0)
  with two mid last show ?thesis
    by (simp add: cycle_def)
qed

lemma cycle_pc: "pc (cycle x s) = At_while"
  by (simp add: cycle_def)

lemma cycle_calls_eq: "calls (cycle x s) = calls s @ cycle_calls"
proof -
  have "var_i (s\<lparr>pc := At_for_test, var_i := 1\<rparr>) = of_nat 1"
    by simp
  then have "calls ((pass x ^^ 35) (s\<lparr>pc := At_for_test, var_i := 1\<rparr>)) =
      calls (s\<lparr>pc := At_for_test, var_i := 1\<rparr>) @ concat (map pass_calls [1..<1 + 35])"
    by (rule passes_calls)
  then show ?thesis
    by (simp add: cycle_def cycle_calls_def)
qed

lemma cycles_pc: "pc s = At_while \<Longrightarrow> pc ((cycle x ^^ K) s) = At_while"
  by (induction K) (simp_all add: cycle_pc)

lemma concat_replicate_snoc: "concat (replicate K c) @ c = c @ concat (replicate K c)"
  by (induction K) simp_all

lemma cycles_calls: "calls ((cycle x ^^ K) s) = calls s @ concat (replicate K cycle_calls)"
  by (induction K) (simp_all add: cycle_calls_eq concat_replicate_snoc)

lemma run_cycles:
  assumes "pc s = At_while"
  shows "run x (178 * K) s = (cycle x ^^ K) s"
proof (induction K)
  case 0
  then show ?case by (simp add: run_0)
next
  case (Suc K)
  have "run x (178 * Suc K) s = run x 178 (run x (178 * K) s)"
    using run_add [of x "178 * K" 178 s] by (simp add: add.commute)
  moreover have "pc ((cycle x ^^ K) s) = At_while"
    using assms by (rule cycles_pc)
  then have "run x 178 ((cycle x ^^ K) s) = cycle x ((cycle x ^^ K) s)"
    by (rule run_cycle)
  ultimately show ?case
    using Suc by simp
qed

lemma kernel_main_cycles:
  "kernel_main x (1 + 178 * K) d i0 line0 =
     (cycle x ^^ K) ((entry d i0 line0)\<lparr>pc := At_while, world := ext_clear_screen x d,
                                         calls := [Call_clear_screen]\<rparr>)"
proof -
  have "step x (entry d i0 line0) =
      (entry d i0 line0)\<lparr>pc := At_while, world := ext_clear_screen x d,
                          calls := [Call_clear_screen]\<rparr>"
    by (simp add: step_clear_screen entry_def)
  moreover have "run x (1 + 178 * K) (entry d i0 line0) =
      run x (178 * K) (run x 1 (entry d i0 line0))"
    by (rule run_add)
  ultimately show ?thesis
    by (simp add: kernel_main_def run_Suc run_0 run_cycles)
qed

lemma kernel_main_calls_cycles:
  "calls (kernel_main x (1 + 178 * K) d i0 line0) =
     Call_clear_screen # concat (replicate K cycle_calls)"
  by (simp only: kernel_main_cycles cycles_calls) simp

lemma step_calls_prefix: "prefix (calls s) (calls (step x s))"
  by (cases "pc s") (simp_all add: step_def split: prod.split)

lemma run_calls_prefix: "prefix (calls s) (calls (run x n s))"
proof (induction n)
  case 0
  then show ?case by (simp add: run_0)
next
  case (Suc n)
  have "prefix (calls (run x n s)) (calls (step x (run x n s)))"
    by (rule step_calls_prefix)
  with Suc show ?case
    unfolding run_Suc_right by (rule prefix_order.trans)
qed

lemma kernel_main_calls_prefix:
  "prefix (calls (kernel_main x n d i0 line0))
          (Call_clear_screen # concat (replicate n cycle_calls))"
proof -
  have "n \<le> 1 + 178 * n"
    by simp
  then obtain m where m: "1 + 178 * n = n + m"
    using le_Suc_ex by blast
  have "prefix (calls (run x n (entry d i0 line0))) (calls (run x m (run x n (entry d i0 line0))))"
    by (rule run_calls_prefix)
  then have "prefix (calls (kernel_main x n d i0 line0)) (calls (kernel_main x (1 + 178 * n) d i0 line0))"
    unfolding kernel_main_def m run_add .
  then show ?thesis
    by (simp only: kernel_main_calls_cycles)
qed

lemma step_not_returned: "pc s \<noteq> Returned \<Longrightarrow> pc (step x s) \<noteq> Returned"
  by (cases "pc s") (simp_all add: step_def split: prod.split)

lemma step_moves: "pc s \<noteq> Returned \<Longrightarrow> pc (step x s) \<noteq> pc s"
  by (cases "pc s") (simp_all add: step_def split: prod.split)

lemma kernel_main_not_returned: "pc (kernel_main x n d i0 line0) \<noteq> Returned"
proof (induction n)
  case 0
  then show ?case by (simp add: kernel_main_def run_0 entry_def)
next
  case (Suc n)
  then show ?case
    by (simp add: kernel_main_def run_Suc_right step_not_returned del: funpow.simps)
qed

lemma pass_effect_eq:
  "var_i s = of_nat i \<Longrightarrow>
   (var_line (pass x s), world (pass x s)) = pass_effect x i (var_line s, world s)"
  by (simp add: pass_def pass_effect_def Let_def)

lemma passes_effect:
  assumes "var_i s = of_nat a"
  shows "(var_line ((pass x ^^ j) s), world ((pass x ^^ j) s)) =
           fold (pass_effect x) [a..<a + j] (var_line s, world s)"
proof (induction j)
  case 0
  then show ?case by simp
next
  case (Suc j)
  let ?s = "(pass x ^^ j) s"
  have "var_i ?s = of_nat (a + j)"
    using assms by (rule passes_i)
  then have "(var_line (pass x ?s), world (pass x ?s)) =
      pass_effect x (a + j) (var_line ?s, world ?s)"
    by (rule pass_effect_eq)
  with Suc show ?case
    by simp
qed

lemma cycle_effect_eq:
  "(var_line (cycle x s), world (cycle x s)) = cycle_effect x (var_line s, world s)"
proof -
  let ?s = "s\<lparr>pc := At_for_test, var_i := 1\<rparr>"
  have "var_i ?s = of_nat 1"
    by simp
  then have "(var_line ((pass x ^^ 35) ?s), world ((pass x ^^ 35) ?s)) =
      fold (pass_effect x) [1..<1 + 35] (var_line ?s, world ?s)"
    by (rule passes_effect)
  moreover have "[1..<1 + 35] = [1..<36 :: nat]"
    by simp
  ultimately show ?thesis
    by (simp only: cycle_def cycle_effect_def) simp
qed

lemma cycles_effect:
  "(var_line ((cycle x ^^ K) s), world ((cycle x ^^ K) s)) =
     (cycle_effect x ^^ K) (var_line s, world s)"
  by (induction K) (simp_all add: cycle_effect_eq)


lemma kernel_main_cycles_effect:
  "pc (kernel_main x (1 + 178 * K) d i0 line0) = At_while \<and>
   (var_line (kernel_main x (1 + 178 * K) d i0 line0),
    world (kernel_main x (1 + 178 * K) d i0 line0)) =
     (cycle_effect x ^^ K) (line0, ext_clear_screen x d)"
proof -
  let ?s1 = "(entry d i0 line0)\<lparr>pc := At_while, world := ext_clear_screen x d,
      calls := [Call_clear_screen]\<rparr>"
  have "pc ?s1 = At_while"
    by simp
  then have "pc ((cycle x ^^ K) ?s1) = At_while"
    by (rule cycles_pc)
  moreover have "(var_line ((cycle x ^^ K) ?s1), world ((cycle x ^^ K) ?s1)) =
      (cycle_effect x ^^ K) (var_line ?s1, world ?s1)"
    by (rule cycles_effect)
  moreover have "var_line ?s1 = line0" and "world ?s1 = ext_clear_screen x d"
    by (simp_all add: entry_def)
  ultimately show ?thesis
    by (simp only: kernel_main_cycles)
qed

lemma kernel_main_passes_effect:
  assumes "j \<le> 35"
  shows "pc (kernel_main x (3 + 178 * K + 5 * j) d i0 line0) = At_for_test \<and>
         var_i (kernel_main x (3 + 178 * K + 5 * j) d i0 line0) = of_nat (1 + j) \<and>
         (var_line (kernel_main x (3 + 178 * K + 5 * j) d i0 line0),
          world (kernel_main x (3 + 178 * K + 5 * j) d i0 line0)) =
           fold (pass_effect x) [1..<1 + j] ((cycle_effect x ^^ K) (line0, ext_clear_screen x d)) \<and>
         calls (kernel_main x (3 + 178 * K + 5 * j) d i0 line0) =
           Call_clear_screen # concat (replicate K cycle_calls) @ concat (map pass_calls [1..<1 + j])"
proof -
  let ?sK = "kernel_main x (1 + 178 * K) d i0 line0"
  let ?s2 = "?sK\<lparr>pc := At_for_test, var_i := 1\<rparr>"
  have at: "pc ?sK = At_while"
    and eff: "(var_line ?sK, world ?sK) = (cycle_effect x ^^ K) (line0, ext_clear_screen x d)"
    using kernel_main_cycles_effect [of x K d i0 line0] by simp_all
  have "run x 2 ?sK = step x (step x ?sK)"
    by (simp add: eval_nat_numeral run_Suc run_0)
  also have "\<dots> = ?s2"
    using at by (simp add: step_while step_for_init)
  finally have two: "run x 2 ?sK = ?s2" .
  have five: "run x (5 * j) ?s2 = (pass x ^^ j) ?s2"
    using assms by (intro run_passes) simp_all
  have "3 + 178 * K + 5 * j = (1 + 178 * K) + (2 + 5 * j)"
    by simp
  then have "kernel_main x (3 + 178 * K + 5 * j) d i0 line0 =
      run x (2 + 5 * j) (run x (1 + 178 * K) (entry d i0 line0))"
    by (simp only: kernel_main_def run_add)
  also have "\<dots> = run x (5 * j) (run x 2 ?sK)"
    by (simp only: kernel_main_def run_add)
  finally have reach: "kernel_main x (3 + 178 * K + 5 * j) d i0 line0 = (pass x ^^ j) ?s2"
    by (simp only: two five)
  have i: "var_i ?s2 = of_nat 1"
    by simp
  have "pc ((pass x ^^ j) ?s2) = At_for_test"
    by (simp add: passes_pc)
  moreover have "var_i ((pass x ^^ j) ?s2) = of_nat (1 + j)"
    using i by (rule passes_i)
  moreover have "(var_line ((pass x ^^ j) ?s2), world ((pass x ^^ j) ?s2)) =
      fold (pass_effect x) [1..<1 + j] (var_line ?s2, world ?s2)"
    using i by (rule passes_effect)
  moreover have "calls ((pass x ^^ j) ?s2) = calls ?s2 @ concat (map pass_calls [1..<1 + j])"
    using i by (rule passes_calls)
  moreover have "calls ?s2 = Call_clear_screen # concat (replicate K cycle_calls)"
    using kernel_main_calls_cycles [of x K d i0 line0] by simp
  moreover have "(var_line ?s2, world ?s2) = (cycle_effect x ^^ K) (line0, ext_clear_screen x d)"
    using eff by simp
  ultimately show ?thesis
    unfolding reach by simp
qed


text \<open>
  C3. \<^verbatim>\<open>kernel_main\<close> calls nothing before \<^verbatim>\<open>clear_screen\<close>, which is its first
  step: after it the display is what \<^verbatim>\<open>clear_screen\<close> made of it and \<^verbatim>\<open>line\<close>
  is untouched. After any number of steps the calls made so far are a prefix of: one
  \<^verbatim>\<open>clear_screen\<close>, then the cycle repeated. For every \<open>K\<close> the run reaches,
  after \<open>1 + 178 * K\<close> steps, the head of the \<^verbatim>\<open>while\<close> loop with exactly \<open>K\<close>
  cycles made, and \<^verbatim>\<open>line\<close> and the display are then the effect of \<open>K\<close> cycles
  on the cleared display. Inside the next cycle, after \<open>j\<close> passes (\<open>j\<close> up to 35)
  the counter is \<open>j + 1\<close> and \<^verbatim>\<open>line\<close> and the display are the effect of the
  passes for 1 to \<open>j\<close>, in increasing order. The cycle is, for \<open>i\<close> from 1 to 35,
  \<^verbatim>\<open>int_to_string(i, line, 10)\<close>, \<^verbatim>\<open>print_string(line)\<close> on the bytes that call
  left, \<^verbatim>\<open>print_nl()\<close>, and holds no call of \<^verbatim>\<open>clear_screen\<close>.
\<close>

theorem kernel_main_call_sequence:
  "calls (kernel_main x 0 d i0 line0) = [] \<and>
   world (kernel_main x 0 d i0 line0) = d \<and>
   calls (kernel_main x 1 d i0 line0) = [Call_clear_screen] \<and>
   world (kernel_main x 1 d i0 line0) = ext_clear_screen x d \<and>
   var_line (kernel_main x 1 d i0 line0) = line0 \<and>
   (\<forall>n. \<exists>K. prefix (calls (kernel_main x n d i0 line0))
                  (Call_clear_screen # concat (replicate K cycle_calls))) \<and>
   (\<forall>K. calls (kernel_main x (1 + 178 * K) d i0 line0) =
          Call_clear_screen # concat (replicate K cycle_calls)) \<and>
   (\<forall>K. pc (kernel_main x (1 + 178 * K) d i0 line0) = At_while \<and>
        (var_line (kernel_main x (1 + 178 * K) d i0 line0),
         world (kernel_main x (1 + 178 * K) d i0 line0)) =
          (cycle_effect x ^^ K) (line0, ext_clear_screen x d)) \<and>
   (\<forall>K j. j \<le> 35 \<longrightarrow>
        pc (kernel_main x (3 + 178 * K + 5 * j) d i0 line0) = At_for_test \<and>
        var_i (kernel_main x (3 + 178 * K + 5 * j) d i0 line0) = of_nat (1 + j) \<and>
        (var_line (kernel_main x (3 + 178 * K + 5 * j) d i0 line0),
         world (kernel_main x (3 + 178 * K + 5 * j) d i0 line0)) =
          fold (pass_effect x) [1..<1 + j]
            ((cycle_effect x ^^ K) (line0, ext_clear_screen x d)) \<and>
        calls (kernel_main x (3 + 178 * K + 5 * j) d i0 line0) =
          Call_clear_screen # concat (replicate K cycle_calls) @
          concat (map pass_calls [1..<1 + j])) \<and>
   cycle_calls =
     concat (map (\<lambda>i. [Call_int_to_string (of_nat i) 0 10, Call_print_string 0, Call_print_nl])
                 [1..<36]) \<and>
   Call_clear_screen \<notin> set cycle_calls \<and>
   cycle_effect x = fold (pass_effect x) [1..<36] \<and>
   (\<forall>i buff w. pass_effect x i (buff, w) =
      (fst (ext_int_to_string x (of_nat i) buff 10),
       ext_print_nl x (ext_print_string x (fst (ext_int_to_string x (of_nat i) buff 10)) w)))"
proof (intro conjI allI impI)
  show "calls (kernel_main x 0 d i0 line0) = []"
    by (simp add: kernel_main_def run_0 entry_def)
  show "world (kernel_main x 0 d i0 line0) = d"
    by (simp add: kernel_main_def run_0 entry_def)
  show "calls (kernel_main x 1 d i0 line0) = [Call_clear_screen]"
    using kernel_main_calls_cycles [of x 0 d i0 line0] by simp
  show "world (kernel_main x 1 d i0 line0) = ext_clear_screen x d"
    using kernel_main_cycles_effect [of x 0 d i0 line0] by simp
  show "var_line (kernel_main x 1 d i0 line0) = line0"
    using kernel_main_cycles_effect [of x 0 d i0 line0] by simp
  show "\<exists>K. prefix (calls (kernel_main x n d i0 line0))
                 (Call_clear_screen # concat (replicate K cycle_calls))" for n
    by (rule exI [of _ n]) (rule kernel_main_calls_prefix)
  show "calls (kernel_main x (1 + 178 * K) d i0 line0) =
          Call_clear_screen # concat (replicate K cycle_calls)" for K
    by (rule kernel_main_calls_cycles)
  show "pc (kernel_main x (1 + 178 * K) d i0 line0) = At_while" for K
    using kernel_main_cycles_effect [of x K d i0 line0] by (rule conjunct1)
  show "(var_line (kernel_main x (1 + 178 * K) d i0 line0),
         world (kernel_main x (1 + 178 * K) d i0 line0)) =
          (cycle_effect x ^^ K) (line0, ext_clear_screen x d)" for K
    using kernel_main_cycles_effect [of x K d i0 line0] by (rule conjunct2)
  show "cycle_calls =
     concat (map (\<lambda>i. [Call_int_to_string (of_nat i) 0 10, Call_print_string 0, Call_print_nl])
                 [1..<36])"
  proof -
    have "pass_calls =
        (\<lambda>i. [Call_int_to_string (of_nat i) 0 10, Call_print_string 0, Call_print_nl])"
      by (rule ext) (simp only: pass_calls_def)
    then show ?thesis
      by (simp only: cycle_calls_def)
  qed
  show "Call_clear_screen \<notin> set cycle_calls"
    by (auto simp add: cycle_calls_def pass_calls_def)
  show "cycle_effect x = fold (pass_effect x) [1..<36]"
    by (rule cycle_effect_def)
  show "pass_effect x i (buff, w) =
      (fst (ext_int_to_string x (of_nat i) buff 10),
       ext_print_nl x (ext_print_string x (fst (ext_int_to_string x (of_nat i) buff 10)) w))"
    for i buff w
    by (simp add: pass_effect_def)
next
  fix K j :: nat
  assume j: "j \<le> 35"
  note e = kernel_main_passes_effect [OF j, of x K d i0 line0]
  show "pc (kernel_main x (3 + 178 * K + 5 * j) d i0 line0) = At_for_test"
    using e by (rule conjunct1)
  show "var_i (kernel_main x (3 + 178 * K + 5 * j) d i0 line0) = of_nat (1 + j)"
    using e [THEN conjunct2] by (rule conjunct1)
  show "(var_line (kernel_main x (3 + 178 * K + 5 * j) d i0 line0),
         world (kernel_main x (3 + 178 * K + 5 * j) d i0 line0)) =
          fold (pass_effect x) [1..<1 + j]
            ((cycle_effect x ^^ K) (line0, ext_clear_screen x d))"
    using e [THEN conjunct2, THEN conjunct2] by (rule conjunct1)
  show "calls (kernel_main x (3 + 178 * K + 5 * j) d i0 line0) =
          Call_clear_screen # concat (replicate K cycle_calls) @
          concat (map pass_calls [1..<1 + j])"
    using e [THEN conjunct2, THEN conjunct2] by (rule conjunct2)
qed

theorem kernel_main_call_sequence_witness:
  "(1 :: nat) \<le> 35 \<and>
   pc (kernel_main (spec_externs Wrap) 8 boot_display 0 (replicate 100 0)) = At_for_test \<and>
   var_i (kernel_main (spec_externs Wrap) 8 boot_display 0 (replicate 100 0)) = 2 \<and>
   var_line (kernel_main (spec_externs Wrap) 8 boot_display 0 (replicate 100 0)) =
     [0x31, 0] @ replicate 98 0 \<and>
   world (kernel_main (spec_externs Wrap) 8 boot_display 0 (replicate 100 0)) =
     print_nl Wrap (print_string ([0x31, 0] @ replicate 98 0) (clear_screen boot_display)) \<and>
   calls (kernel_main (spec_externs Wrap) 8 boot_display 0 (replicate 100 0)) =
     [Call_clear_screen, Call_int_to_string 1 0 10, Call_print_string 0, Call_print_nl]"
proof -
  have j: "(1 :: nat) \<le> 35"
    by simp
  have n: "3 + 178 * 0 + 5 * 1 = (8 :: nat)"
    by simp
  have l: "[1..<1 + 1] = [1 :: nat]"
    by simp
  note all = kernel_main_call_sequence [of "spec_externs Wrap" boot_display 0 "replicate 100 0"]
  note at = all [THEN conjunct2, THEN conjunct2, THEN conjunct2, THEN conjunct2, THEN conjunct2,
      THEN conjunct2, THEN conjunct2, THEN conjunct2, THEN conjunct1, rule_format, OF j, of 0,
      unfolded n l]
  have eff: "pass_effect (spec_externs Wrap) (Suc 0) (replicate 100 0, clear_screen boot_display) =
      ([0x31, 0] @ replicate 98 0,
       print_nl Wrap (print_string ([0x31, 0] @ replicate 98 0) (clear_screen boot_display)))"
    by (simp add: pass_effect_def spec_externs_def within_contract_def int_to_string_def
        format_int_def digits_of.simps digit_char_def Let_def)
  have c: "ext_clear_screen (spec_externs Wrap) = clear_screen"
    by (simp add: spec_externs_def)
  from at j show ?thesis
    by (simp add: eff c pass_calls_def)
qed

text \<open>
  C4. \<^verbatim>\<open>kernel_main\<close> never returns: after every number of steps the program is
  at a point other than the return, and the next step moves it to another program
  point. (A reset from outside is not part of the model.)
\<close>

theorem kernel_main_never_returns:
  "pc (kernel_main x n d i0 line0) \<noteq> Returned \<and>
   kernel_main x (Suc n) d i0 line0 = step x (kernel_main x n d i0 line0) \<and>
   pc (kernel_main x (Suc n) d i0 line0) \<noteq> pc (kernel_main x n d i0 line0)"
proof (intro conjI)
  show a: "pc (kernel_main x n d i0 line0) \<noteq> Returned"
    by (rule kernel_main_not_returned)
  show b: "kernel_main x (Suc n) d i0 line0 = step x (kernel_main x n d i0 line0)"
    by (simp only: kernel_main_def run_Suc_right)
  show "pc (kernel_main x (Suc n) d i0 line0) \<noteq> pc (kernel_main x n d i0 line0)"
    unfolding b using a by (rule step_moves)
qed

section \<open>The arguments of every call of int\_to\_string\<close>

lemma digits_of_10_length:
  assumes "k < 100"
  shows "length (digits_of 10 k) \<le> 2"
proof (cases "k < 10")
  case True
  then show ?thesis
    by (subst digits_of.simps) simp
next
  case False
  from assms have "k div 10 < 10"
    by simp
  then have "digits_of 10 (k div 10) = [digit_char (k div 10)]"
    by (subst digits_of.simps) simp
  with False show ?thesis
    by (subst digits_of.simps) simp
qed

lemma format_int_small_length:
  "0 \<le> v \<Longrightarrow> v < 100 \<Longrightarrow> length (format_int v 10) \<le> 2"
  by (simp add: format_int_def digits_of_10_length)

lemma in_concat_replicate: "c \<in> set (concat (replicate K cs)) \<Longrightarrow> c \<in> set cs"
  by (induction K) auto

lemma int_to_string_in_passes:
  assumes "Call_int_to_string v p r \<in> set (concat (map pass_calls [a..<b]))"
  shows "\<exists>k. a \<le> k \<and> k < b \<and> v = of_nat k \<and> p = 0 \<and> r = 10"
  using assms by (auto simp add: pass_calls_def)

lemma int_to_string_in_cycle:
  assumes "Call_int_to_string v p r \<in> set cycle_calls"
  shows "\<exists>k. 1 \<le> k \<and> k \<le> 35 \<and> v = of_nat k \<and> p = 0 \<and> r = 10"
proof -
  from assms have "Call_int_to_string v p r \<in> set (concat (map pass_calls [1..<36]))"
    by (simp only: cycle_calls_def)
  then have "\<exists>k. 1 \<le> k \<and> k < 36 \<and> v = of_nat k \<and> p = 0 \<and> r = 10"
    by (rule int_to_string_in_passes)
  then obtain k where "1 \<le> k" and "k < 36" and "v = of_nat k" and "p = 0" and "r = 10"
    by (elim exE conjE)
  then have "1 \<le> k \<and> k \<le> 35 \<and> v = of_nat k \<and> p = 0 \<and> r = 10"
    by simp
  then show ?thesis ..
qed

lemma int_to_string_call_args:
  assumes "Call_int_to_string v p r \<in> set (calls (kernel_main x n d i0 line0))"
  shows "\<exists>k. 1 \<le> k \<and> k \<le> 35 \<and> v = of_nat k \<and> p = 0 \<and> r = 10"
proof -
  have "set (calls (kernel_main x n d i0 line0)) \<subseteq>
      set (Call_clear_screen # concat (replicate n cycle_calls))"
    using kernel_main_calls_prefix by (rule set_mono_prefix)
  with assms have "Call_int_to_string v p r \<in> set (concat (replicate n cycle_calls))"
    by auto
  then have "Call_int_to_string v p r \<in> set cycle_calls"
    by (rule in_concat_replicate)
  then show ?thesis
    by (rule int_to_string_in_cycle)
qed

lemma step_line_length:
  assumes "\<forall>v b r. length (fst (ext_int_to_string x v b r)) = length b"
  shows "length (var_line (step x s)) = length (var_line s)"
proof (cases "pc s = At_int_to_string")
  case True
  with assms show ?thesis
    by (simp add: step_int_to_string)
next
  case False
  then show ?thesis
    by (cases "pc s") (simp_all add: step_def)
qed

lemma kernel_main_line_length:
  assumes "\<forall>v b r. length (fst (ext_int_to_string x v b r)) = length b"
  shows "length (var_line (kernel_main x n d i0 line0)) = length line0"
proof (induction n)
  case 0
  then show ?case by (simp add: kernel_main_def run_0 entry_def)
next
  case (Suc n)
  have "kernel_main x (Suc n) d i0 line0 = step x (kernel_main x n d i0 line0)"
    by (simp only: kernel_main_def run_Suc_right)
  with Suc assms show ?case
    by (simp add: step_line_length)
qed


lemma sint_10: "sint (10 :: int32) = 10"
  by simp

lemma int_to_string_defined:
  assumes "length (format_int (sint v) 10) \<le> 2" and "3 \<le> length buff"
  shows "int_to_string v buff 10 =
           Some (format_int (sint v) 10 @ [0] @ drop (length (format_int (sint v) 10) + 1) buff, 0)"
  using assms by (simp add: int_to_string_def Let_def)


lemma int_to_string_keeps_length:
  "length (fst (within_contract (int_to_string v buff r) buff)) = length buff"
proof (cases "int_to_string v buff r")
  case None
  then show ?thesis
    by (simp add: within_contract_def)
next
  case (Some res)
  let ?txt = "format_int (sint v) (nat (sint r)) @ [0]"
  from Some have "length ?txt \<le> length buff" and "res = (?txt @ drop (length ?txt) buff, 0)"
    by (auto simp add: int_to_string_def Let_def split: if_splits)
  with Some show ?thesis
    by (simp add: within_contract_def)
qed

lemma spec_externs_keep_length:
  "\<forall>v b r. length (fst (ext_int_to_string (spec_externs p) v b r)) = length b"
  by (simp add: spec_externs_def int_to_string_keeps_length)

lemma kernel_main_first_calls:
  "calls (kernel_main x 5 d i0 line0) = [Call_clear_screen, Call_int_to_string 1 0 10]"
  by (simp add: kernel_main_def eval_nat_numeral run_Suc run_0 step_def entry_def word_sle_eq
      split: prod.split)

text \<open>
  C9. Every call of \<^verbatim>\<open>int_to_string\<close> that \<^verbatim>\<open>kernel_main\<close> makes has a value
  from 1 to 35, the radix 10 and the pointer \<^verbatim>\<open>line\<close> (offset 0 of the array of
  100 bytes). So the value is never zero and never the minimum integer; its text with
  the terminator fits the 100 bytes, and the call is within the contract of
  \<^verbatim>\<open>int_to_string\<close> for a buffer of that size. When the callee writes only inside
  the buffer it is handed, \<^verbatim>\<open>line\<close> is 100 bytes at every point of the run.
\<close>

theorem int_to_string_calls_in_range:
  assumes "Call_int_to_string v p r \<in> set (calls (kernel_main x n d i0 line0))"
  shows "1 \<le> sint v \<and> sint v \<le> 35 \<and> r = 10 \<and> p = 0 \<and>
         v \<noteq> 0 \<and> sint v \<noteq> - (2 ^ 31) \<and>
         length (format_int (sint v) 10) + 1 \<le> LINE_SIZE \<and>
         (\<forall>buff. length buff = LINE_SIZE \<longrightarrow> int_to_string v buff r \<noteq> None) \<and>
         (length line0 = LINE_SIZE \<and>
          (\<forall>v b r. length (fst (ext_int_to_string x v b r)) = length b) \<longrightarrow>
          length (var_line (kernel_main x n d i0 line0)) = LINE_SIZE)"
proof -
  from assms have "\<exists>k. 1 \<le> k \<and> k \<le> 35 \<and> v = of_nat k \<and> p = 0 \<and> r = 10"
    by (rule int_to_string_call_args)
  then obtain k where k: "1 \<le> k" "k \<le> 35" and v: "v = of_nat k" and p: "p = 0" and r: "r = 10"
    by (elim exE conjE)
  have "k < 2 ^ 31"
    using k by simp
  then have sv: "sint v = int k"
    unfolding v by (rule sint_small)
  have range: "1 \<le> sint v \<and> sint v \<le> 35"
    using k sv by simp
  have len: "length (format_int (sint v) 10) \<le> 2"
    using range by (intro format_int_small_length) simp_all
  have nz: "v \<noteq> 0"
  proof
    assume "v = 0"
    then have "sint v = 0" by simp
    with range show False by simp
  qed
  have nmin: "sint v \<noteq> - (2 ^ 31)"
    using range by simp
  have fits: "length (format_int (sint v) 10) + 1 \<le> LINE_SIZE"
    using len by (simp add: LINE_SIZE_def)
  have defined: "\<forall>buff. length buff = LINE_SIZE \<longrightarrow> int_to_string v buff r \<noteq> None"
  proof (intro allI impI)
    fix buff :: "byte list"
    assume "length buff = LINE_SIZE"
    then have "3 \<le> length buff"
      by (simp add: LINE_SIZE_def)
    with len show "int_to_string v buff r \<noteq> None"
      unfolding r by (simp only: int_to_string_defined) simp
  qed
  have buffer: "length line0 = LINE_SIZE \<and>
          (\<forall>v b r. length (fst (ext_int_to_string x v b r)) = length b) \<longrightarrow>
          length (var_line (kernel_main x n d i0 line0)) = LINE_SIZE"
    using kernel_main_line_length [of x n d i0 line0] by simp
  from range have lo: "1 \<le> sint v" and hi: "sint v \<le> 35"
    by simp_all
  from lo hi r p nz nmin fits defined buffer show ?thesis
    by (intro conjI)
qed

theorem int_to_string_calls_in_range_witness:
  "Call_int_to_string 1 0 10 \<in>
     set (calls (kernel_main (spec_externs Wrap) 5 boot_display 0 (replicate 100 0))) \<and>
   sint (1 :: int32) = 1 \<and>
   length (format_int (sint (1 :: int32)) 10) + 1 \<le> LINE_SIZE \<and>
   int_to_string 1 (replicate 100 0) 10 \<noteq> None \<and>
   length (var_line (kernel_main (spec_externs Wrap) 5 boot_display 0 (replicate 100 0))) =
     LINE_SIZE"
proof -
  have a: "Call_int_to_string 1 0 10 \<in>
      set (calls (kernel_main (spec_externs Wrap) 5 boot_display 0 (replicate 100 0)))"
    by (simp only: kernel_main_first_calls) simp
  have b: "length (replicate 100 (0 :: byte)) = LINE_SIZE"
    by (simp add: LINE_SIZE_def)
  show ?thesis
    using a b spec_externs_keep_length [of Wrap] int_to_string_calls_in_range [OF a]
    by simp
qed

section \<open>The text that print\_string is handed\<close>

lemma digit_char_nonzero:
  assumes "d < 36"
  shows "digit_char d \<noteq> 0"
proof -
  define m where "m = (if d < 10 then 48 + d else 87 + d)"
  have eq: "digit_char d = of_nat m"
    by (simp add: digit_char_def m_def)
  have "0 < m" and "m < 256"
    using assms by (simp_all add: m_def)
  then have "\<not> 256 dvd m"
    by (auto dest: dvd_imp_le)
  moreover have "(of_nat m :: byte) = 0 \<longleftrightarrow> 2 ^ LENGTH(8) dvd m"
    by (rule word_of_nat_eq_0_iff)
  ultimately show ?thesis
    unfolding eq by simp
qed

lemma digits_of_10_nonzero: "0 \<notin> set (digits_of 10 n)"
proof (induction n rule: less_induct)
  case (less n)
  show ?case
  proof (cases "n < 10")
    case True
    then show ?thesis
      by (subst digits_of.simps) (simp add: digit_char_nonzero)
  next
    case False
    then have "n div 10 < n"
      by simp
    then have "0 \<notin> set (digits_of 10 (n div 10))"
      by (rule less.IH)
    moreover have "digit_char (n mod 10) \<noteq> 0"
      by (rule digit_char_nonzero) simp
    ultimately show ?thesis
      using False by (subst digits_of.simps) simp
  qed
qed

lemma digits_of_nonempty: "digits_of radix n \<noteq> []"
  by (subst digits_of.simps) simp

lemma format_int_10_nonzero: "0 \<le> v \<Longrightarrow> 0 \<notin> set (format_int v 10)"
  by (simp add: format_int_def digits_of_10_nonzero)

lemma format_int_nonempty: "format_int v radix \<noteq> []"
  by (simp add: format_int_def digits_of_nonempty)

lemma takeWhile_text:
  "(0::byte) \<notin> set str \<Longrightarrow> takeWhile (\<lambda>b. b \<noteq> 0) (str @ 0 # rest) = str"
  by (induction str) auto

lemma c_string_at_start: "(0::byte) \<notin> set str \<Longrightarrow> c_string (str @ 0 # rest) 0 = str"
  by (simp add: c_string_def takeWhile_text)

lemma c_string_at_offset:
  "(0::byte) \<notin> set str \<Longrightarrow> c_string (pre @ str @ 0 # rest) (length pre) = str"
  by (simp add: c_string_def takeWhile_text)

lemma c_string_zero_first: "c_string (0 # rest) 0 = []"
  by (simp add: c_string_def)


lemma run_call_and_print:
  assumes "pc s = At_int_to_string"
    and "ext_int_to_string x (var_i s) (var_line s) 10 = (buff, ret)"
  shows "run x 2 s =
           s\<lparr>pc := At_print_nl, var_line := buff,
             world := ext_print_string x (drop 0 buff) (world s),
             calls := calls s @ [Call_int_to_string (var_i s) 0 10, Call_print_string 0]\<rparr>"
proof -
  have "run x 2 s = step x (step x s)"
    by (simp add: eval_nat_numeral run_Suc run_0)
  also have "\<dots> = s\<lparr>pc := At_print_nl, var_line := buff,
             world := ext_print_string x (drop 0 buff) (world s),
             calls := calls s @ [Call_int_to_string (var_i s) 0 10, Call_print_string 0]\<rparr>"
    using assms by (simp add: step_int_to_string step_print_string)
  finally show ?thesis .
qed

lemma int_to_string_tail_zeroed:
  assumes "1 \<le> sint v" and "sint v \<le> 35"
  shows "\<exists>n. int_to_string_tail v (replicate LINE_SIZE 0) 10 =
           Some (replicate (Suc n) 0 @ format_int (sint v) 10 @ [0], Suc n)"
proof -
  let ?t = "format_int (sint v) 10"
  have len: "length ?t \<le> 2"
    using assms by (intro format_int_small_length) simp_all
  define n where "n = LINE_SIZE - length ?t - 2"
  have n: "LINE_SIZE - length (?t @ [0]) = Suc n"
    using len by (simp add: n_def LINE_SIZE_def)
  have "int_to_string_tail v (replicate LINE_SIZE 0) 10 =
      Some (take (LINE_SIZE - length (?t @ [0])) (replicate LINE_SIZE 0) @ ?t @ [0],
            LINE_SIZE - length (?t @ [0]))"
    using len by (simp add: int_to_string_tail_def Let_def LINE_SIZE_def)
  also have "take (LINE_SIZE - length (?t @ [0])) (replicate LINE_SIZE (0::byte)) =
      replicate (Suc n) 0"
  proof -
    have "Suc n \<le> LINE_SIZE"
      using n by arith
    then have "min (Suc n) LINE_SIZE = Suc n"
      by (rule min_absorb1)
    then show ?thesis
      unfolding n by (simp only: take_replicate)
  qed
  finally show ?thesis
    unfolding n by blast
qed

lemma kernel_main_at_first_call:
  "kernel_main x 4 d i0 line0 =
     \<lparr>pc = At_int_to_string, var_i = 1, var_line = line0, world = ext_clear_screen x d,
      calls = [Call_clear_screen]\<rparr>"
  by (simp add: kernel_main_def eval_nat_numeral run_Suc run_0 step_def entry_def word_sle_eq)

lemma format_int_1: "format_int 1 10 = [0x31]"
  by (simp add: format_int_def digits_of.simps digit_char_def)

lemma int_to_string_1:
  "int_to_string 1 (replicate 100 0) 10 = Some ([0x31, 0] @ replicate 98 0, 0)"
  by (simp add: int_to_string_def format_int_1 Let_def)

lemma int_to_string_tail_1:
  "int_to_string_tail 1 (replicate 100 0) 10 = Some (replicate 98 0 @ [0x31, 0], 98)"
  by (simp add: int_to_string_tail_def format_int_1 Let_def)

text \<open>
  C10. Line 56 drops the pointer that \<^verbatim>\<open>int_to_string\<close> returns and line 57 hands
  \<^verbatim>\<open>line\<close> itself to \<^verbatim>\<open>print_string\<close>: the state after the two calls is a
  function of the buffer that \<^verbatim>\<open>int_to_string\<close> left, not of the pointer. When the
  text was written at the first byte (the returned pointer is \<^verbatim>\<open>line\<close>), the text
  that \<^verbatim>\<open>print_string\<close> reads is the decimal text of \<^verbatim>\<open>i\<close>. That the text is
  at the returned pointer is not enough: with the function that writes it at the end of
  a zeroed buffer, the text at the returned pointer is the decimal text of \<^verbatim>\<open>i\<close>
  and the text that \<^verbatim>\<open>print_string\<close> reads is empty.
\<close>

theorem print_string_reads_line_start:
  assumes "pc s = At_int_to_string"
    and "ext_int_to_string x (var_i s) (var_line s) 10 = (buff, ret)"
  shows "run x 2 s =
           s\<lparr>pc := At_print_nl, var_line := buff,
             world := ext_print_string x (drop 0 buff) (world s),
             calls := calls s @ [Call_int_to_string (var_i s) 0 10, Call_print_string 0]\<rparr> \<and>
         (ret = 0 \<and> c_string buff ret = format_int (sint (var_i s)) 10 \<longrightarrow>
            c_string (drop 0 buff) 0 = format_int (sint (var_i s)) 10) \<and>
         (ext_int_to_string x = (\<lambda>v b r. within_contract (int_to_string_tail v b r) b) \<and>
          var_line s = replicate LINE_SIZE 0 \<and> 1 \<le> sint (var_i s) \<and> sint (var_i s) \<le> 35 \<longrightarrow>
            c_string buff ret = format_int (sint (var_i s)) 10 \<and>
            c_string (drop 0 buff) 0 = [] \<and>
            c_string (drop 0 buff) 0 \<noteq> format_int (sint (var_i s)) 10)"
proof (intro conjI impI)
  show "run x 2 s =
           s\<lparr>pc := At_print_nl, var_line := buff,
             world := ext_print_string x (drop 0 buff) (world s),
             calls := calls s @ [Call_int_to_string (var_i s) 0 10, Call_print_string 0]\<rparr>"
    using assms by (rule run_call_and_print)
next
  assume "ret = 0 \<and> c_string buff ret = format_int (sint (var_i s)) 10"
  then show "c_string (drop 0 buff) 0 = format_int (sint (var_i s)) 10"
    by auto
next
  assume a: "ext_int_to_string x = (\<lambda>v b r. within_contract (int_to_string_tail v b r) b) \<and>
          var_line s = replicate LINE_SIZE 0 \<and> 1 \<le> sint (var_i s) \<and> sint (var_i s) \<le> 35"
  let ?t = "format_int (sint (var_i s)) 10"
  from a obtain n where "int_to_string_tail (var_i s) (replicate LINE_SIZE 0) 10 =
      Some (replicate (Suc n) 0 @ ?t @ [0], Suc n)"
    using int_to_string_tail_zeroed by blast
  with a assms(2) have buff: "buff = replicate (Suc n) 0 @ ?t @ [0]" and ret: "ret = Suc n"
    by (auto simp add: within_contract_def)
  have nz: "0 \<notin> set ?t"
    using a by (intro format_int_10_nonzero) simp
  have "c_string (replicate (Suc n) 0 @ ?t @ 0 # []) (length (replicate (Suc n) (0::byte))) = ?t"
    using nz by (rule c_string_at_offset)
  then show 1: "c_string buff ret = ?t"
    by (simp add: buff ret)
  show 2: "c_string (drop 0 buff) 0 = []"
    by (simp add: buff c_string_zero_first)
  show "c_string (drop 0 buff) 0 \<noteq> ?t"
    unfolding 2 using format_int_nonempty [of "sint (var_i s)" 10] by simp
qed


theorem print_string_reads_line_start_witness:
  "pc (kernel_main (spec_externs Wrap) 4 boot_display 0 (replicate 100 0)) = At_int_to_string \<and>
   ext_int_to_string (spec_externs Wrap) 1 (replicate 100 0) 10 =
     ([0x31, 0] @ replicate 98 0, 0) \<and>
   world (run (spec_externs Wrap) 2
            (kernel_main (spec_externs Wrap) 4 boot_display 0 (replicate 100 0))) =
     print_string ([0x31, 0] @ replicate 98 0) (clear_screen boot_display) \<and>
   c_string ([0x31, 0] @ replicate 98 0) 0 = format_int 1 10 \<and>
   within_contract (int_to_string_tail 1 (replicate 100 0) 10) (replicate 100 0) =
     (replicate 98 0 @ [0x31, 0], 98) \<and>
   c_string (replicate 98 0 @ [0x31, 0]) 98 = format_int 1 10 \<and>
   c_string (replicate 98 0 @ [0x31, 0]) 0 = []"
proof -
  let ?x = "spec_externs Wrap"
  let ?y = "?x\<lparr>ext_int_to_string := \<lambda>v b r. within_contract (int_to_string_tail v b r) b\<rparr>"
  let ?s = "kernel_main ?x 4 boot_display 0 (replicate 100 0)"
  let ?t = "kernel_main ?y 4 boot_display 0 (replicate 100 0)"
  have s: "pc ?s = At_int_to_string" and t: "pc ?t = At_int_to_string"
    by (simp_all add: kernel_main_at_first_call)
  have a: "ext_int_to_string ?x (var_i ?s) (var_line ?s) 10 = ([0x31, 0] @ replicate 98 0, 0)"
    by (simp add: kernel_main_at_first_call spec_externs_def within_contract_def int_to_string_1)
  have b: "ext_int_to_string ?y (var_i ?t) (var_line ?t) 10 = (replicate 98 0 @ [0x31, 0], 98)"
    by (simp add: kernel_main_at_first_call within_contract_def int_to_string_tail_1)
  have c: "c_string ([0x31, 0] @ replicate 98 0) 0 = format_int 1 10"
    by (simp add: c_string_def format_int_1)
  have d: "ext_int_to_string ?y = (\<lambda>v b r. within_contract (int_to_string_tail v b r) b)"
    by simp
  have e: "var_line ?t = replicate LINE_SIZE 0" "var_i ?t = 1"
    by (simp_all add: kernel_main_at_first_call LINE_SIZE_def)
  from print_string_reads_line_start [OF s a]
  have 1: "world (run ?x 2 ?s) =
      print_string ([0x31, 0] @ replicate 98 0) (clear_screen boot_display)"
    by (simp add: kernel_main_at_first_call spec_externs_def)
  from print_string_reads_line_start [OF t b] d e
  have 2: "c_string (replicate 98 0 @ [0x31, 0]) 98 = format_int 1 10 \<and>
      c_string (drop 0 (replicate 98 0 @ [0x31, 0])) 0 = []"
    by simp
  from s a 1 c b 2 show ?thesis
    by (simp add: kernel_main_at_first_call within_contract_def int_to_string_tail_1)
qed

section \<open>clear\_screen, from its contract\<close>

lemma put_cells_length:
  "length (fold (\<lambda>c. put_cell r c v) cols cs) = length cs"
  by (induction cols arbitrary: cs) (simp_all add: put_cell_def)

lemma put_cells_nth:
  "fold (\<lambda>c. put_cell r c v) [0..<n] cs ! k =
     (if r * VGA_WIDTH \<le> k \<and> k < r * VGA_WIDTH + n \<and> k < length cs then v else cs ! k)"
proof (induction n)
  case 0
  then show ?case by auto
next
  case (Suc n)
  let ?f = "fold (\<lambda>c. put_cell r c v) [0..<n] cs"
  have len: "length ?f = length cs"
    by (rule put_cells_length)
  have unfold: "fold (\<lambda>c. put_cell r c v) [0..<Suc n] cs = ?f[r * VGA_WIDTH + n := v]"
    by (simp add: put_cell_def)
  show ?case
  proof (cases "k = r * VGA_WIDTH + n")
    case True
    show ?thesis
    proof (cases "k < length cs")
      case True
      with \<open>k = r * VGA_WIDTH + n\<close> len show ?thesis
        unfolding unfold by simp
    next
      case False
      with \<open>k = r * VGA_WIDTH + n\<close> len Suc show ?thesis
        unfolding unfold by (simp add: list_update_beyond)
    qed
  next
    case False
    then have "?f[r * VGA_WIDTH + n := v] ! k = ?f ! k"
      by simp
    with False Suc show ?thesis
      unfolding unfold by auto
  qed
qed

lemma clear_row_length: "length (clear_row r cs) = length cs"
  by (simp add: clear_row_def put_cells_length)

lemma clear_row_nth:
  "clear_row r cs ! k =
     (if r * VGA_WIDTH \<le> k \<and> k < Suc r * VGA_WIDTH \<and> k < length cs then blank_cell else cs ! k)"
  by (simp add: clear_row_def put_cells_nth)

lemma clear_rows_length: "length (fold clear_row [0..<m] cs) = length cs"
  by (induction m) (simp_all add: clear_row_length)

lemma clear_rows_nth:
  "fold clear_row [0..<m] cs ! k =
     (if k < m * VGA_WIDTH \<and> k < length cs then blank_cell else cs ! k)"
proof (induction m)
  case 0
  then show ?case by simp
next
  case (Suc m)
  then show ?case
    by (auto simp add: clear_row_nth clear_rows_length)
qed

lemma blank_cell_value: "blank_cell = 0x0720"
  by (simp add: blank_cell_def vga_entry_def vga_entry_color_def)


lemma clear_screen_cells:
  assumes "length (cells d) = VGA_WIDTH * VGA_HEIGHT"
  shows "cells (clear_screen d) = replicate (VGA_WIDTH * VGA_HEIGHT) blank_cell"
proof (rule nth_equalityI)
  show "length (cells (clear_screen d)) = length (replicate (VGA_WIDTH * VGA_HEIGHT) blank_cell)"
    using assms by (simp add: clear_screen_def clear_rows_length)
next
  fix k
  assume "k < length (cells (clear_screen d))"
  then have "k < VGA_HEIGHT * VGA_WIDTH"
    using assms by (simp add: clear_screen_def clear_rows_length mult.commute)
  then show "cells (clear_screen d) ! k = replicate (VGA_WIDTH * VGA_HEIGHT) blank_cell ! k"
    using assms by (simp add: clear_screen_def clear_rows_nth mult.commute)
qed

text \<open>
  C6. After \<^verbatim>\<open>clear_screen\<close>, every one of the 2000 cells of the Display Buffer is
  the blank cell, the space glyph with light grey on black (the 16-bit value 0x0720),
  and the cursor is at row 0.
\<close>

theorem clear_screen_blanks_every_cell:
  assumes "length (cells d) = VGA_WIDTH * VGA_HEIGHT"
  shows "length (cells (clear_screen d)) = 2000 \<and>
         (\<forall>k<2000. cells (clear_screen d) ! k = blank_cell) \<and>
         blank_cell = vga_entry 0x20 (vga_entry_color (vga_color_val VGA_COLOR_LIGHT_GREY)
                                                      (vga_color_val VGA_COLOR_BLACK)) \<and>
         blank_cell = 0x0720 \<and>
         terminal_row (clear_screen d) = 0 \<and> terminal_column (clear_screen d) = 0"
proof (intro conjI)
  have all: "cells (clear_screen d) = replicate 2000 blank_cell"
    using clear_screen_cells [OF assms] by (simp add: VGA_WIDTH_def VGA_HEIGHT_def)
  show "length (cells (clear_screen d)) = 2000"
    unfolding all by simp
  show "\<forall>k<2000. cells (clear_screen d) ! k = blank_cell"
    unfolding all by simp
  show "blank_cell = vga_entry 0x20 (vga_entry_color (vga_color_val VGA_COLOR_LIGHT_GREY)
                                                      (vga_color_val VGA_COLOR_BLACK))"
    by (rule blank_cell_def)
  show "blank_cell = 0x0720"
    by (rule blank_cell_value)
  show "terminal_row (clear_screen d) = 0" and "terminal_column (clear_screen d) = 0"
    by (simp_all add: clear_screen_def)
qed

theorem clear_screen_blanks_every_cell_witness:
  "length (cells boot_display) = VGA_WIDTH * VGA_HEIGHT \<and>
   cells boot_display ! 1999 = 0 \<and>
   cells (clear_screen boot_display) ! 1999 = 0x0720 \<and>
   cells (clear_screen boot_display) ! 0 = 0x0720 \<and>
   terminal_row (clear_screen (boot_display\<lparr>terminal_row := 7\<rparr>)) = 0"
proof -
  have a: "length (cells boot_display) = VGA_WIDTH * VGA_HEIGHT"
    by (simp add: boot_display_def)
  have b: "length (cells (boot_display\<lparr>terminal_row := 7\<rparr>)) = VGA_WIDTH * VGA_HEIGHT"
    by (simp add: boot_display_def)
  have "cells boot_display ! 1999 = 0"
    by (simp add: boot_display_def VGA_WIDTH_def VGA_HEIGHT_def)
  with a show ?thesis
    using clear_screen_blanks_every_cell [OF a] clear_screen_blanks_every_cell [OF b]
    by simp
qed

section \<open>int\_to\_string, from its contract\<close>

lemma format_int_35: "format_int 35 10 = [0x33, 0x35]"
  by (simp add: format_int_def digits_of.simps digit_char_def)

lemma format_int_min:
  "format_int (- 2147483648) 10 = [0x2D,0x32,0x31,0x34,0x37,0x34,0x38,0x33,0x36,0x34,0x38]"
  by (simp add: format_int_def digits_of.simps digit_char_def)

lemma sint_min: "sint (- 2147483648 :: int32) = - 2147483648"
  by simp

lemma sint_35: "sint (35 :: int32) = 35"
  by simp

lemma int_to_string_result:
  assumes "2 \<le> sint r" and "sint r \<le> 36"
    and "length (format_int (sint v) (nat (sint r))) < length buff"
  shows "int_to_string v buff r =
           Some (format_int (sint v) (nat (sint r)) @
                 0 # drop (Suc (length (format_int (sint v) (nat (sint r))))) buff, 0)"
  using assms by (simp add: int_to_string_def Let_def)

lemma int_to_string_35: 
  assumes "3 \<le> length buff"
  shows "int_to_string 35 buff 10 = Some ([0x33, 0x35, 0] @ drop (Suc (Suc (Suc 0))) buff, 0)"
  using assms int_to_string_result [of 10 35 buff] by (simp add: format_int_35)

lemma int_to_string_min: 
  assumes "12 \<le> length buff"
  shows "int_to_string (- 2147483648) buff 10 =
           Some ([0x2D,0x32,0x31,0x34,0x37,0x34,0x38,0x33,0x36,0x34,0x38,0] @
                 drop (length [0x2D,0x32,0x31,0x34,0x37,0x34,0x38,0x33,0x36,0x34,0x38,0 :: byte]) buff,
                 0)"
  using assms int_to_string_result [of 10 "- 2147483648" buff] by (simp add: format_int_min)

text \<open>
  C7. \<^verbatim>\<open>int_to_string(35, buf, 10)\<close> yields the text "35", and
  \<^verbatim>\<open>int_to_string(-2147483648, buf, 10)\<close>, the call on the least 32-bit value,
  yields the text "-2147483648", in a buffer of at least 12 bytes, whose length is kept.
\<close>

theorem int_to_string_35_and_minimum:
  assumes "12 \<le> length buff"
  shows "(\<exists>b p. int_to_string 35 buff 10 = Some (b, p) \<and> length b = length buff \<and>
                 c_string b p = ascii ''35'') \<and>
         (\<forall>v :: int32. sint (- 2147483648 :: int32) \<le> sint v) \<and>
         sint (- 2147483648 :: int32) = - 2147483648 \<and>
         (\<exists>b p. int_to_string (- 2147483648) buff 10 = Some (b, p) \<and> length b = length buff \<and>
                 c_string b p = ascii ''-2147483648'')"
proof (intro conjI allI)
  from assms have 3: "3 \<le> length buff"
    by simp
  have "c_string ([0x33, 0x35, 0] @ drop (Suc (Suc (Suc 0))) buff) 0 = ascii ''35''"
    by (simp add: c_string_def ascii_def)
  moreover have "length ([0x33, 0x35, 0 :: byte] @ drop (Suc (Suc (Suc 0))) buff) = length buff"
    using 3 by simp
  ultimately show "\<exists>b p. int_to_string 35 buff 10 = Some (b, p) \<and> length b = length buff \<and>
                 c_string b p = ascii ''35''"
    using int_to_string_35 [OF 3] by blast
next
  fix v :: int32
  show "sint (- 2147483648 :: int32) \<le> sint v"
    using sint_ge [of v] by simp
next
  show "sint (- 2147483648 :: int32) = - 2147483648"
    by simp
next
  let ?m = "[0x2D,0x32,0x31,0x34,0x37,0x34,0x38,0x33,0x36,0x34,0x38,0 :: byte]"
  have "c_string (?m @ drop (length ?m) buff) 0 = ascii ''-2147483648''"
    by (simp add: c_string_def ascii_def)
  moreover have "length (?m @ drop (length ?m) buff) = length buff"
    using assms by simp
  ultimately show "\<exists>b p. int_to_string (- 2147483648) buff 10 = Some (b, p) \<and>
      length b = length buff \<and> c_string b p = ascii ''-2147483648''"
    using int_to_string_min [OF assms] by blast
qed

theorem int_to_string_35_and_minimum_witness:
  "12 \<le> length (replicate 100 (0 :: byte)) \<and>
   int_to_string 35 (replicate 100 0) 10 = Some ([0x33, 0x35, 0] @ replicate 97 0, 0) \<and>
   int_to_string (- 2147483648) (replicate 100 0) 10 =
     Some ([0x2D,0x32,0x31,0x34,0x37,0x34,0x38,0x33,0x36,0x34,0x38,0] @ replicate 88 0, 0) \<and>
   (\<exists>b p. int_to_string 35 (replicate 100 0) 10 = Some (b, p) \<and> c_string b p = ascii ''35'')"
proof -
  have a: "12 \<le> length (replicate 100 (0 :: byte))"
    by simp
  have b: "3 \<le> length (replicate 100 (0 :: byte))"
    by simp
  show ?thesis
    using int_to_string_35_and_minimum [OF a] int_to_string_35 [OF b] int_to_string_min [OF a]
    by simp
qed

section \<open>The display, from the contracts of print\_string and print\_nl\<close>

lemma put_char_fields:
  "terminal_row (put_char b d) = terminal_row d"
  "terminal_color (put_char b d) = terminal_color d"
  "terminal_column (put_char b d) = Suc (terminal_column d)"
  "length (cells (put_char b d)) = length (cells d)"
  by (simp_all add: put_char_def put_cell_def)

lemma put_chars_fields:
  "terminal_row (fold put_char bs d) = terminal_row d \<and>
   terminal_color (fold put_char bs d) = terminal_color d \<and>
   terminal_column (fold put_char bs d) = terminal_column d + length bs \<and>
   length (cells (fold put_char bs d)) = length (cells d)"
  by (induction bs arbitrary: d) (simp_all add: put_char_fields)

lemma put_chars_nth:
  "cells (fold put_char bs d) ! k =
     (if terminal_row d * VGA_WIDTH + terminal_column d \<le> k \<and>
         k < terminal_row d * VGA_WIDTH + terminal_column d + length bs \<and>
         k < length (cells d)
      then vga_entry (bs ! (k - (terminal_row d * VGA_WIDTH + terminal_column d))) (terminal_color d)
      else cells d ! k)"
proof (induction bs arbitrary: d)
  case Nil
  then show ?case by auto
next
  case (Cons b bs)
  let ?base = "terminal_row d * VGA_WIDTH + terminal_column d"
  have first: "cells (put_char b d) ! k =
      (if k = ?base \<and> k < length (cells d) then vga_entry b (terminal_color d) else cells d ! k)"
    by (auto simp add: put_char_def put_cell_def nth_list_update list_update_beyond)
  have "cells (fold put_char (b # bs) d) ! k = cells (fold put_char bs (put_char b d)) ! k"
    by simp
  also have "\<dots> =
      (if Suc ?base \<le> k \<and> k < Suc ?base + length bs \<and> k < length (cells d)
       then vga_entry (bs ! (k - Suc ?base)) (terminal_color d)
       else cells (put_char b d) ! k)"
    by (simp add: Cons.IH put_char_fields)
  finally show ?case
    unfolding first by (auto simp add: nth_Cons' Suc_diff_le)
qed


lemma index_of_row:
  fixes k j :: nat
  assumes "k div 80 = j"
  shows "j * 80 \<le> k" and "k < j * 80 + 80" and "k mod 80 = k - j * 80"
proof -
  show "j * 80 \<le> k"
    using div_times_less_eq_dividend [of k 80] assms by simp
  show "k < j * 80 + 80"
    using dividend_less_div_times [of 80 k] assms by simp
  show "k mod 80 = k - j * 80"
    using minus_div_mult_eq_mod [of k 80] assms by simp
qed

lemma row_of_index:
  fixes k j :: nat
  assumes "j * 80 \<le> k" and "k < j * 80 + 80"
  shows "k div 80 = j" and "k mod 80 = k - j * 80"
proof -
  show "k div 80 = j"
    using assms by (intro div_nat_eqI) (simp_all add: mult.commute)
  then show "k mod 80 = k - j * 80"
    by (rule index_of_row)
qed

lemma lines_screen_length: "length (lines_screen a j) = 2000"
  by (simp add: lines_screen_def VGA_WIDTH_def VGA_HEIGHT_def)

lemma lines_screen_nth:
  "k < 2000 \<Longrightarrow> lines_screen a j ! k = line_cell a j (k div 80) (k mod 80)"
  by (simp add: lines_screen_def VGA_WIDTH_def VGA_HEIGHT_def)

lemma lines_screen_0: "lines_screen a 0 = replicate (VGA_WIDTH * VGA_HEIGHT) blank_cell"
  by (rule nth_equalityI)
    (simp_all add: lines_screen_def line_cell_def)

lemma print_line_cells:
  assumes "cells w = lines_screen a j" and "terminal_row w = j" and "terminal_column w = 0"
    and "terminal_color w = a" and "length (format_int (int j + 1) 10) \<le> 80"
  shows "cells (fold put_char (format_int (int j + 1) 10) w) = lines_screen a (Suc j)"
proof (rule nth_equalityI)
  show "length (cells (fold put_char (format_int (int j + 1) 10) w)) =
      length (lines_screen a (Suc j))"
    using assms(1) by (simp add: put_chars_fields lines_screen_length)
next
  fix k
  let ?t = "format_int (int j + 1) 10"
  assume "k < length (cells (fold put_char ?t w))"
  then have k: "k < 2000"
    using assms(1) by (simp add: put_chars_fields lines_screen_length)
  have written: "cells (fold put_char ?t w) ! k =
      (if j * 80 \<le> k \<and> k < j * 80 + length ?t then vga_entry (?t ! (k - j * 80)) a
       else line_cell a j (k div 80) (k mod 80))"
    using assms k
    by (simp add: put_chars_nth VGA_WIDTH_def lines_screen_length lines_screen_nth)
  show "cells (fold put_char ?t w) ! k = lines_screen a (Suc j) ! k"
  proof (cases "j * 80 \<le> k \<and> k < j * 80 + length ?t")
    case True
    with assms(5) have "k div 80 = j" and "k mod 80 = k - j * 80"
      by (simp_all add: row_of_index)
    moreover from True have "k - j * 80 < length ?t"
      by arith
    ultimately show ?thesis
      unfolding written using True k by (simp add: lines_screen_nth line_cell_def)
  next
    case False
    show ?thesis
    proof (cases "k div 80 = j")
      case True
      then have "j * 80 \<le> k" and m: "k mod 80 = k - j * 80"
        by (simp_all add: index_of_row)
      with False have "\<not> k mod 80 < length ?t"
        by simp
      with True False k show ?thesis
        unfolding written by (simp add: lines_screen_nth line_cell_def)
    next
      case neq: False
      then have "k div 80 < j \<longleftrightarrow> k div 80 < Suc j"
        by auto
      then have "line_cell a j (k div 80) (k mod 80) = line_cell a (Suc j) (k div 80) (k mod 80)"
        by (simp add: line_cell_def)
      with False k show ?thesis
        unfolding written by (auto simp add: lines_screen_nth)
    qed
  qed
qed

lemma vga_entry_glyph: "ucast (vga_entry g a) = g"
  by (rule bit_eqI) (auto simp add: vga_entry_def bit_simps)

lemma blank_cell_glyph: "(ucast blank_cell :: byte) = 0x20"
  by (simp add: blank_cell_def vga_entry_glyph)

lemma row_glyphs_lines_screen:
  assumes "cells w = lines_screen a j" and "r < 25"
  shows "row_glyphs w r = map (\<lambda>c. ucast (line_cell a j r c)) [0..<80]"
proof (rule nth_equalityI)
  show "length (row_glyphs w r) = length (map (\<lambda>c. ucast (line_cell a j r c) :: byte) [0..<80])"
    using assms by (simp add: row_glyphs_def VGA_WIDTH_def lines_screen_length)
next
  fix c
  assume "c < length (row_glyphs w r)"
  then have c: "c < 80"
    by (simp add: row_glyphs_def VGA_WIDTH_def)
  with assms(2) have k: "r * 80 + c < 2000"
    by simp
  have "(r * 80 + c) div 80 = r" and "(r * 80 + c) mod 80 = c"
    using c by simp_all
  with k c assms show "row_glyphs w r ! c = map (\<lambda>c. ucast (line_cell a j r c)) [0..<80] ! c"
    by (simp add: row_glyphs_def VGA_WIDTH_def lines_screen_length lines_screen_nth)
qed

lemma row_shows_line:
  assumes "cells w = lines_screen a j" and "r < j" and "r < 25"
    and "length (format_int (int r + 1) 10) \<le> 80"
  shows "row_shows w r (format_int (int r + 1) 10)"
proof -
  let ?t = "format_int (int r + 1) 10"
  have "map (\<lambda>c. ucast (line_cell a j r c)) [0..<80] = ?t @ replicate (80 - length ?t) 0x20"
  proof (rule nth_equalityI)
    show "length (map (\<lambda>c. ucast (line_cell a j r c) :: byte) [0..<80]) =
        length (?t @ replicate (80 - length ?t) 0x20)"
      using assms(4) by simp
  next
    fix c
    assume "c < length (map (\<lambda>c. ucast (line_cell a j r c) :: byte) [0..<80])"
    then have "c < 80"
      by simp
    then show "map (\<lambda>c. ucast (line_cell a j r c)) [0..<80] ! c =
        (?t @ replicate (80 - length ?t) 0x20) ! c"
      using assms(2)
      by (simp add: line_cell_def nth_append vga_entry_glyph blank_cell_glyph)
  qed
  then show ?thesis
    unfolding row_shows_def row_glyphs_lines_screen [OF assms(1) assms(3)]
    by (simp only: VGA_WIDTH_def)
qed

lemma row_shows_blank:
  assumes "cells w = lines_screen a j" and "j \<le> r" and "r < 25"
  shows "row_shows w r []"
proof -
  have "map (\<lambda>c. ucast (line_cell a j r c)) [0..<80] = replicate 80 (0x20 :: byte)"
    using assms(2) by (intro nth_equalityI) (simp_all add: line_cell_def blank_cell_glyph)
  then show ?thesis
    unfolding row_shows_def row_glyphs_lines_screen [OF assms(1) assms(3)]
    by (simp add: VGA_WIDTH_def)
qed

section \<open>The boot loop on the display\<close>

lemma print_nl_next_row:
  "terminal_row d + 1 < VGA_HEIGHT \<Longrightarrow>
   print_nl p d = d\<lparr>terminal_row := terminal_row d + 1, terminal_column := 0\<rparr>"
  by (simp add: print_nl_def)

lemma pass_prints_at_start:
  assumes "\<forall>v buff. 1 \<le> sint v \<and> sint v \<le> 35 \<and> length buff = LINE_SIZE \<longrightarrow>
             length (fst (f v buff 10)) = LINE_SIZE \<and>
             c_string (fst (f v buff 10)) 0 = format_int (sint v) 10"
    and "var_i s = of_nat (Suc j)" and "j < 35" and "length (var_line s) = LINE_SIZE"
  shows "world (pass ((spec_externs p)\<lparr>ext_int_to_string := f\<rparr>) s) =
           print_nl p (fold put_char (format_int (int j + 1) 10) (world s)) \<and>
         var_i (pass ((spec_externs p)\<lparr>ext_int_to_string := f\<rparr>) s) = of_nat (Suc (Suc j)) \<and>
         length (var_line (pass ((spec_externs p)\<lparr>ext_int_to_string := f\<rparr>) s)) = LINE_SIZE"
proof -
  let ?buff = "fst (f (var_i s) (var_line s) 10)"
  have "Suc j < 2 ^ 31"
    using assms(3) by simp
  then have "sint (of_nat (Suc j) :: int32) = int (Suc j)"
    by (rule sint_small)
  then have sv: "sint (var_i s) = int j + 1"
    by (simp add: assms(2))
  then have "1 \<le> sint (var_i s) \<and> sint (var_i s) \<le> 35 \<and> length (var_line s) = LINE_SIZE"
    using assms(3,4) by simp
  with assms(1) have "length ?buff = LINE_SIZE \<and> c_string ?buff 0 = format_int (sint (var_i s)) 10"
    by blast
  then have len: "length ?buff = LINE_SIZE" and "c_string ?buff 0 = format_int (int j + 1) 10"
    by (simp_all add: sv)
  then have "print_string ?buff (world s) = fold put_char (format_int (int j + 1) 10) (world s)"
    by (simp add: print_string_def)
  with len assms(2) show ?thesis
    by (simp add: pass_def Let_def spec_externs_def)
qed

lemma pass_printed_at_start:
  assumes "\<forall>v buff. 1 \<le> sint v \<and> sint v \<le> 35 \<and> length buff = LINE_SIZE \<longrightarrow>
             length (fst (f v buff 10)) = LINE_SIZE \<and>
             c_string (fst (f v buff 10)) 0 = format_int (sint v) 10"
    and "printed a j s" and "j < 24"
  shows "printed a (Suc j) (pass ((spec_externs p)\<lparr>ext_int_to_string := f\<rparr>) s)"
proof -
  let ?t = "format_int (int j + 1) 10"
  let ?w = "world s"
  let ?s = "pass ((spec_externs p)\<lparr>ext_int_to_string := f\<rparr>) s"
  from assms(2) have i: "var_i s = of_nat (Suc j)" and line: "length (var_line s) = LINE_SIZE"
    and w: "cells ?w = lines_screen a j" "terminal_row ?w = j" "terminal_column ?w = 0"
      "terminal_color ?w = a" and at: "pc s = At_for_test"
    by (simp_all add: printed_def)
  have "j < 35"
    using assms(3) by simp
  with assms(1) i have "world ?s = print_nl p (fold put_char ?t ?w) \<and>
      var_i ?s = of_nat (Suc (Suc j)) \<and> length (var_line ?s) = LINE_SIZE"
    using line by (intro pass_prints_at_start)
  then have after: "world ?s = print_nl p (fold put_char ?t ?w)"
    "var_i ?s = of_nat (Suc (Suc j))" "length (var_line ?s) = LINE_SIZE"
    by simp_all
  have len: "length ?t \<le> 2"
    using assms(3) by (intro format_int_small_length) simp_all
  have fields: "terminal_row (fold put_char ?t ?w) = j" "terminal_color (fold put_char ?t ?w) = a"
    using put_chars_fields [of ?t ?w] w by simp_all
  have cells: "cells (fold put_char ?t ?w) = lines_screen a (Suc j)"
    using w len by (intro print_line_cells) simp_all
  have "terminal_row (fold put_char ?t ?w) + 1 < VGA_HEIGHT"
    using assms(3) fields by (simp add: VGA_HEIGHT_def)
  then have nl: "print_nl p (fold put_char ?t ?w) =
      (fold put_char ?t ?w)\<lparr>terminal_row := Suc j, terminal_column := 0\<rparr>"
    using fields by (simp add: print_nl_next_row)
  have "pc ?s = At_for_test"
    using at by (simp add: pass_pc)
  with after nl fields cells show ?thesis
    by (simp add: printed_def)
qed

lemma passes_printed_at_start:
  assumes "\<forall>v buff. 1 \<le> sint v \<and> sint v \<le> 35 \<and> length buff = LINE_SIZE \<longrightarrow>
             length (fst (f v buff 10)) = LINE_SIZE \<and>
             c_string (fst (f v buff 10)) 0 = format_int (sint v) 10"
    and "printed a 0 s" and "j \<le> 24"
  shows "printed a j ((pass ((spec_externs p)\<lparr>ext_int_to_string := f\<rparr>) ^^ j) s)"
  using assms(3)
proof (induction j)
  case 0
  with assms(2) show ?case by simp
next
  case (Suc j)
  let ?x = "(spec_externs p)\<lparr>ext_int_to_string := f\<rparr>"
  from Suc have "printed a j ((pass ?x ^^ j) s)" and "j < 24"
    by simp_all
  with assms(1) have "printed a (Suc j) (pass ?x ((pass ?x ^^ j) s))"
    by (rule pass_printed_at_start)
  then show ?case by simp
qed

lemma int_to_string_at_start:
  "\<forall>v buff. 1 \<le> sint v \<and> sint v \<le> 35 \<and> length buff = LINE_SIZE \<longrightarrow>
     length (fst (within_contract (int_to_string v buff 10) buff)) = LINE_SIZE \<and>
     c_string (fst (within_contract (int_to_string v buff 10) buff)) 0 = format_int (sint v) 10"
proof (intro allI impI)
  fix v :: int32 and buff :: "byte list"
  let ?t = "format_int (sint v) 10"
  assume a: "1 \<le> sint v \<and> sint v \<le> 35 \<and> length buff = LINE_SIZE"
  then have len: "length ?t \<le> 2"
    by (intro format_int_small_length) simp_all
  have nz: "0 \<notin> set ?t"
    using a by (intro format_int_10_nonzero) simp
  have "int_to_string v buff 10 = Some (?t @ 0 # drop (Suc (length ?t)) buff, 0)"
    using int_to_string_result [of 10 v buff] len a by (simp add: LINE_SIZE_def)
  then have "fst (within_contract (int_to_string v buff 10) buff) =
      ?t @ 0 # drop (Suc (length ?t)) buff"
    by (simp add: within_contract_def)
  moreover have "c_string (?t @ 0 # drop (Suc (length ?t)) buff) 0 = ?t"
    using nz by (rule c_string_at_start)
  moreover have "length (?t @ 0 # drop (Suc (length ?t)) buff) = LINE_SIZE"
    using len a by (simp add: LINE_SIZE_def)
  ultimately show "length (fst (within_contract (int_to_string v buff 10) buff)) = LINE_SIZE \<and>
     c_string (fst (within_contract (int_to_string v buff 10) buff)) 0 = ?t"
    by simp
qed

lemma spec_externs_update:
  "(spec_externs p)\<lparr>ext_int_to_string := \<lambda>v buff r. within_contract (int_to_string v buff r) buff\<rparr>
     = spec_externs p"
  by (simp add: spec_externs_def)

lemma pass_prints:
  assumes "var_i s = of_nat (Suc j)" and "j < 35" and "length (var_line s) = LINE_SIZE"
  shows "world (pass (spec_externs p) s) =
           print_nl p (fold put_char (format_int (int j + 1) 10) (world s)) \<and>
         var_i (pass (spec_externs p) s) = of_nat (Suc (Suc j)) \<and>
         length (var_line (pass (spec_externs p) s)) = LINE_SIZE"
  using pass_prints_at_start
      [where f = "\<lambda>v buff r. within_contract (int_to_string v buff r) buff" and p = p, OF int_to_string_at_start assms]
  by (simp only: spec_externs_update)

lemma passes_printed:
  assumes "printed a 0 s" and "j \<le> 24"
  shows "printed a j ((pass (spec_externs p) ^^ j) s)"
  using passes_printed_at_start
      [where f = "\<lambda>v buff r. within_contract (int_to_string v buff r) buff" and p = p, OF int_to_string_at_start assms]
  by (simp only: spec_externs_update)

lemma kernel_main_at_for_loop:
  "kernel_main x 3 d i0 line0 =
     \<lparr>pc = At_for_test, var_i = 1, var_line = line0, world = ext_clear_screen x d,
      calls = [Call_clear_screen]\<rparr>"
  by (simp add: kernel_main_def eval_nat_numeral run_Suc run_0 step_def entry_def)

lemma kernel_main_passes:
  assumes "j \<le> 35"
  shows "kernel_main x (3 + 5 * j) d i0 line0 = (pass x ^^ j) (kernel_main x 3 d i0 line0)"
proof -
  have "kernel_main x (3 + 5 * j) d i0 line0 = run x (5 * j) (kernel_main x 3 d i0 line0)"
    by (simp only: kernel_main_def run_add)
  also have "\<dots> = (pass x ^^ j) (kernel_main x 3 d i0 line0)"
    using assms by (intro run_passes) (simp_all add: kernel_main_at_for_loop)
  finally show ?thesis .
qed

lemma kernel_main_printed_0_at_start:
  assumes "length (cells d) = VGA_WIDTH * VGA_HEIGHT" and "length line0 = LINE_SIZE"
  shows "printed (terminal_color d) 0
           (kernel_main ((spec_externs p)\<lparr>ext_int_to_string := f\<rparr>) 3 d i0 line0)"
  using assms clear_screen_cells [OF assms(1)]
  by (simp add: printed_def kernel_main_at_for_loop spec_externs_def lines_screen_0)
    (simp add: clear_screen_def)

lemma kernel_main_printed_0:
  assumes "length (cells d) = VGA_WIDTH * VGA_HEIGHT" and "length line0 = LINE_SIZE"
  shows "printed (terminal_color d) 0 (kernel_main (spec_externs p) 3 d i0 line0)"
  using kernel_main_printed_0_at_start
      [where f = "\<lambda>v buff r. within_contract (int_to_string v buff r) buff" and p = p and ?i0.0 = i0, OF assms]
  by (simp only: spec_externs_update)

lemma kernel_main_printed_at_start:
  assumes "\<forall>v buff. 1 \<le> sint v \<and> sint v \<le> 35 \<and> length buff = LINE_SIZE \<longrightarrow>
             length (fst (f v buff 10)) = LINE_SIZE \<and>
             c_string (fst (f v buff 10)) 0 = format_int (sint v) 10"
    and "length (cells d) = VGA_WIDTH * VGA_HEIGHT" and "length line0 = LINE_SIZE" and "j \<le> 24"
  shows "printed (terminal_color d) j
           (kernel_main ((spec_externs p)\<lparr>ext_int_to_string := f\<rparr>) (3 + 5 * j) d i0 line0)"
proof -
  let ?x = "(spec_externs p)\<lparr>ext_int_to_string := f\<rparr>"
  have "j \<le> 35"
    using assms(4) by simp
  then have "kernel_main ?x (3 + 5 * j) d i0 line0 = (pass ?x ^^ j) (kernel_main ?x 3 d i0 line0)"
    by (rule kernel_main_passes)
  moreover have "printed (terminal_color d) j ((pass ?x ^^ j) (kernel_main ?x 3 d i0 line0))"
    using assms(1) kernel_main_printed_0_at_start [OF assms(2,3)] assms(4)
    by (rule passes_printed_at_start)
  ultimately show ?thesis
    by simp
qed

lemma kernel_main_passes_calls:
  assumes "j \<le> 35"
  shows "calls (kernel_main x (3 + 5 * j) d i0 line0) =
           Call_clear_screen # concat (map pass_calls [1..<1 + j])"
proof -
  have "var_i (kernel_main x 3 d i0 line0) = of_nat 1"
    by (simp add: kernel_main_at_for_loop)
  then have "calls ((pass x ^^ j) (kernel_main x 3 d i0 line0)) =
      calls (kernel_main x 3 d i0 line0) @ concat (map pass_calls [1..<1 + j])"
    by (rule passes_calls)
  then show ?thesis
    using assms by (simp add: kernel_main_passes) (simp add: kernel_main_at_for_loop)
qed

lemma format_int_2: "format_int 2 10 = [0x32]"
  by (simp add: format_int_def digits_of.simps digit_char_def)

lemma print_nl_cells_length:
  "length (cells d) = 2000 \<Longrightarrow> length (cells (print_nl p d)) = 2000"
  by (cases p) (simp_all add: print_nl_def VGA_WIDTH_def)

lemma spec_step_cells_length:
  assumes "length (cells (world s)) = 2000"
  shows "length (cells (world (step (spec_externs p) s))) = 2000"
proof (cases "pc s")
  case At_clear_screen
  with assms show ?thesis
    by (simp add: step_def spec_externs_def clear_screen_def clear_rows_length)
next
  case At_print_string
  with assms show ?thesis
    by (simp add: step_def spec_externs_def print_string_def put_chars_fields)
next
  case At_print_nl
  with assms show ?thesis
    by (simp add: step_def spec_externs_def print_nl_cells_length)
next
  case At_int_to_string
  with assms show ?thesis
    by (simp add: step_int_to_string)
qed (use assms in \<open>simp_all add: step_def\<close>)

lemma spec_kernel_main_cells_length:
  assumes "length (cells d) = 2000"
  shows "length (cells (world (kernel_main (spec_externs p) n d i0 line0))) = 2000"
proof (induction n)
  case 0
  with assms show ?case
    by (simp add: kernel_main_def run_0 entry_def)
next
  case (Suc n)
  then show ?case
    unfolding kernel_main_def run_Suc_right by (rule spec_step_cells_length)
qed

lemma no_row_beyond_last:
  assumes "length (cells w) = 2000" and "25 \<le> r"
  shows "\<not> row_shows w r str"
proof -
  from assms have "length (cells w) \<le> r * 80"
    by simp
  then have "row_glyphs w r = []"
    by (simp add: row_glyphs_def VGA_WIDTH_def)
  then show ?thesis
    by (simp add: row_shows_def VGA_WIDTH_def)
qed

lemma format_int_26: "format_int 26 10 = [0x32, 0x36]"
  by (simp add: format_int_def digits_of.simps digit_char_def)

lemma pass_keeps_first_cell:
  assumes "var_i s = of_nat (Suc j)" and "j < 35" and "length (var_line s) = LINE_SIZE"
    and "1 \<le> terminal_row (world s)" and "terminal_row (world s) + 1 < VGA_HEIGHT"
  shows "cells (world (pass (spec_externs Wrap) s)) ! 0 = cells (world s) ! 0 \<and>
         terminal_row (world (pass (spec_externs Wrap) s)) = terminal_row (world s) + 1 \<and>
         var_i (pass (spec_externs Wrap) s) = of_nat (Suc (Suc j)) \<and>
         length (var_line (pass (spec_externs Wrap) s)) = LINE_SIZE"
proof -
  let ?t = "format_int (int j + 1) 10"
  let ?w = "fold put_char ?t (world s)"
  note p = pass_prints [OF assms(1,2,3), of Wrap]
  have row: "terminal_row ?w = terminal_row (world s)"
    using put_chars_fields [of ?t "world s"] by simp
  then have nl: "print_nl Wrap ?w = ?w\<lparr>terminal_row := terminal_row ?w + 1, terminal_column := 0\<rparr>"
    using assms(5) by (intro print_nl_next_row) simp
  have "cells ?w ! 0 = cells (world s) ! 0"
    using assms(4) by (simp add: put_chars_nth VGA_WIDTH_def)
  with p nl row show ?thesis
    by simp
qed


lemma passes_keep_first_cell:
  assumes "var_i s = of_nat (Suc j)" and "length (var_line s) = LINE_SIZE"
    and "1 \<le> terminal_row (world s)" and "terminal_row (world s) + m < VGA_HEIGHT"
    and "j + m \<le> 35"
  shows "cells (world ((pass (spec_externs Wrap) ^^ m) s)) ! 0 = cells (world s) ! 0 \<and>
         terminal_row (world ((pass (spec_externs Wrap) ^^ m) s)) = terminal_row (world s) + m \<and>
         var_i ((pass (spec_externs Wrap) ^^ m) s) = of_nat (Suc j + m) \<and>
         length (var_line ((pass (spec_externs Wrap) ^^ m) s)) = LINE_SIZE"
  using assms(4,5)
proof (induction m)
  case 0
  with assms show ?case by simp
next
  case (Suc m)
  let ?s = "(pass (spec_externs Wrap) ^^ m) s"
  from Suc have ih: "cells (world ?s) ! 0 = cells (world s) ! 0"
    "terminal_row (world ?s) = terminal_row (world s) + m"
    "var_i ?s = of_nat (Suc (j + m))" "length (var_line ?s) = LINE_SIZE"
    by simp_all
  have "cells (world (pass (spec_externs Wrap) ?s)) ! 0 = cells (world ?s) ! 0 \<and>
      terminal_row (world (pass (spec_externs Wrap) ?s)) = terminal_row (world ?s) + 1 \<and>
      var_i (pass (spec_externs Wrap) ?s) = of_nat (Suc (Suc (j + m))) \<and>
      length (var_line (pass (spec_externs Wrap) ?s)) = LINE_SIZE"
    using ih Suc.prems assms(3) by (intro pass_keeps_first_cell) simp_all
  with ih show ?case
    by simp
qed

lemma wrap_overwrites_first_row:
  assumes "printed a 24 s"
  shows "cells (world ((pass (spec_externs Wrap) ^^ 11) s)) ! 0 = vga_entry 0x32 a"
proof -
  let ?x = "spec_externs Wrap"
  let ?s25 = "pass ?x s"
  let ?s26 = "pass ?x ?s25"
  from assms have s: "var_i s = of_nat (Suc 24)" "length (var_line s) = LINE_SIZE"
    "terminal_row (world s) = 24" "terminal_column (world s) = 0" "terminal_color (world s) = a"
    "length (cells (world s)) = 2000"
    by (simp_all add: printed_def lines_screen_length)
  note p25 = pass_prints [OF s(1) _ s(2), of Wrap]
  let ?w25 = "fold put_char (format_int (int 24 + 1) 10) (world s)"
  have f25: "terminal_row ?w25 = 24" "terminal_color ?w25 = a" "length (cells ?w25) = 2000"
    using put_chars_fields [of "format_int (int 24 + 1) 10" "world s"] s by simp_all
  then have w25: "world ?s25 = ?w25\<lparr>terminal_row := 0, terminal_column := 0\<rparr>"
    using p25 by (simp add: print_nl_def VGA_HEIGHT_def)
  have i25: "var_i ?s25 = of_nat (Suc 25)" and l25: "length (var_line ?s25) = LINE_SIZE"
    using p25 by simp_all
  note p26 = pass_prints [OF i25 _ l25, of Wrap]
  let ?w26 = "fold put_char (format_int (int 25 + 1) 10) (world ?s25)"
  have f26: "terminal_row ?w26 = 0"
    using put_chars_fields [of "format_int (int 25 + 1) 10" "world ?s25"] w25 by simp
  have c26: "cells ?w26 ! 0 = vga_entry 0x32 a"
    using w25 f25 by (simp add: format_int_26 put_char_def put_cell_def)
  have w26: "world ?s26 = ?w26\<lparr>terminal_row := 1, terminal_column := 0\<rparr>"
    using p26 f26 by (simp add: print_nl_def VGA_HEIGHT_def)
  have i26: "var_i ?s26 = of_nat (Suc 26)" and l26: "length (var_line ?s26) = LINE_SIZE"
    using p26 by simp_all
  have "cells (world ((pass ?x ^^ 9) ?s26)) ! 0 = cells (world ?s26) ! 0"
    using passes_keep_first_cell [OF i26 l26, of 9] w26 by (simp add: VGA_HEIGHT_def)
  moreover have "(pass ?x ^^ 11) s = (pass ?x ^^ 9) ?s26"
    by (simp add: eval_nat_numeral funpow_swap1)
  ultimately show ?thesis
    using w26 c26 by simp
qed


lemma first_glyph:
  assumes "length (cells w) = 2000"
  shows "row_glyphs w 0 ! 0 = ucast (cells w ! 0)"
  using assms by (simp add: row_glyphs_def VGA_WIDTH_def)

lemma wrap_first_row_after_35:
  "row_glyphs (world (kernel_main (spec_externs Wrap) 178 boot_display 0 (replicate 100 0))) 0 ! 0
     = 0x32"
proof -
  let ?x = "spec_externs Wrap"
  let ?s3 = "kernel_main ?x 3 boot_display 0 (replicate 100 0)"
  let ?a = "terminal_color boot_display"
  have len: "length (cells boot_display) = VGA_WIDTH * VGA_HEIGHT"
    by (simp add: boot_display_def)
  have line: "length (replicate 100 (0 :: byte)) = LINE_SIZE"
    by (simp add: LINE_SIZE_def)
  have "printed ?a 0 ?s3"
    using len line by (rule kernel_main_printed_0)
  then have "printed ?a 24 ((pass ?x ^^ 24) ?s3)"
    by (rule passes_printed) simp
  then have "cells (world ((pass ?x ^^ 11) ((pass ?x ^^ 24) ?s3))) ! 0 = vga_entry 0x32 ?a"
    by (rule wrap_overwrites_first_row)
  moreover have "(pass ?x ^^ 35) ?s3 = (pass ?x ^^ 11) ((pass ?x ^^ 24) ?s3)"
    using funpow_add [of 11 24 "pass ?x"] by simp
  moreover have "kernel_main ?x (3 + 5 * 35) boot_display 0 (replicate 100 0) = (pass ?x ^^ 35) ?s3"
    by (rule kernel_main_passes) simp
  ultimately have "cells (world (kernel_main ?x 178 boot_display 0 (replicate 100 0))) ! 0 =
      vga_entry 0x32 ?a"
    by simp
  moreover have "length (cells (world (kernel_main ?x 178 boot_display 0 (replicate 100 0)))) = 2000"
    using len by (intro spec_kernel_main_cells_length) (simp add: VGA_WIDTH_def VGA_HEIGHT_def)
  ultimately show ?thesis
    by (simp add: first_glyph vga_entry_glyph)
qed

lemma c_string_zeros: "0 < n \<Longrightarrow> c_string (replicate n 0 @ rest) 0 = []"
  by (cases n) (simp_all add: c_string_def)

lemma blank_row_is_not_1:
  assumes "row_shows w r []"
  shows "\<not> row_shows w r (ascii ''1'')"
proof
  assume "row_shows w r (ascii ''1'')"
  with assms have "(replicate 80 0x20 :: byte list) = 0x31 # replicate 79 0x20"
    by (simp add: row_shows_def VGA_WIDTH_def ascii_def)
  then have "hd (replicate 80 (0x20 :: byte)) = 0x31"
    by simp
  then show False
    by simp
qed

lemma tail_first_pass:
  "calls (kernel_main (tail_externs Wrap) 8 boot_display 0 (replicate 100 0)) =
     [Call_clear_screen, Call_int_to_string 1 0 10, Call_print_string 0, Call_print_nl] \<and>
   world (kernel_main (tail_externs Wrap) 8 boot_display 0 (replicate 100 0)) =
     (clear_screen boot_display)\<lparr>terminal_row := 1, terminal_column := 0\<rparr>"
proof -
  let ?x = "tail_externs Wrap"
  let ?s3 = "kernel_main ?x 3 boot_display 0 (replicate 100 0)"
  have "kernel_main ?x (3 + 5 * 1) boot_display 0 (replicate 100 0) = (pass ?x ^^ 1) ?s3"
    by (rule kernel_main_passes) simp
  then have reach: "kernel_main ?x 8 boot_display 0 (replicate 100 0) = pass ?x ?s3"
    by simp
  have "c_string (replicate 98 0 @ [0x31, 0]) 0 = []"
    by (rule c_string_zeros) simp
  then have shown: "print_string (replicate 98 0 @ [0x31, 0]) (clear_screen boot_display) =
      clear_screen boot_display"
    by (simp add: print_string_def)
  have "terminal_row (clear_screen boot_display) + 1 < VGA_HEIGHT"
    by (simp add: clear_screen_def VGA_HEIGHT_def)
  then have nl: "print_nl Wrap (clear_screen boot_display) =
      (clear_screen boot_display)\<lparr>terminal_row := 1, terminal_column := 0\<rparr>"
    by (simp add: print_nl_next_row) (simp add: clear_screen_def)
  show ?thesis
    unfolding reach
    by (simp add: pass_def Let_def kernel_main_at_for_loop tail_externs_def within_contract_def
        int_to_string_tail_1 shown nl)
qed

text \<open>
  C5, as stated, fails twice. First, the Display Buffer has 25 rows. After exactly 35
  passes of print and newline (178 steps, when the calls made are \<^verbatim>\<open>clear_screen\<close>
  and one full cycle) there is no row 34 that could contain "35", whether
  \<^verbatim>\<open>print_nl\<close> wraps or scrolls; and when it wraps, row 0 no longer contains "1": its
  first glyph is the "2" of "26". Second, the contract of \<^verbatim>\<open>int_to_string\<close> does
  not say that the text starts at the first byte of the buffer: with the function that
  meets the contract by writing the text at the end of the buffer, the text at the
  returned pointer is "1" after the first pass, and row 0 is blank.
\<close>

theorem boot_loop_35_rows_counterexample:
  "calls (kernel_main (spec_externs Wrap) 178 boot_display 0 (replicate 100 0)) =
     Call_clear_screen # cycle_calls \<and>
   \<not> row_shows (world (kernel_main (spec_externs Wrap) 178 boot_display 0 (replicate 100 0)))
        34 (ascii ''35'') \<and>
   row_glyphs (world (kernel_main (spec_externs Wrap) 178 boot_display 0 (replicate 100 0))) 0 ! 0
     = 0x32 \<and>
   \<not> row_shows (world (kernel_main (spec_externs Wrap) 178 boot_display 0 (replicate 100 0)))
        0 (ascii ''1'') \<and>
   calls (kernel_main (spec_externs Scroll) 178 boot_display 0 (replicate 100 0)) =
     Call_clear_screen # cycle_calls \<and>
   \<not> row_shows (world (kernel_main (spec_externs Scroll) 178 boot_display 0 (replicate 100 0)))
        34 (ascii ''35'') \<and>
   calls (kernel_main (tail_externs Wrap) 8 boot_display 0 (replicate 100 0)) =
     [Call_clear_screen, Call_int_to_string 1 0 10, Call_print_string 0, Call_print_nl] \<and>
   within_contract (int_to_string_tail 1 (replicate 100 0) 10) (replicate 100 0) =
     (replicate 98 0 @ [0x31, 0], 98) \<and>
   c_string (replicate 98 0 @ [0x31, 0]) 98 = ascii ''1'' \<and>
   row_shows (world (kernel_main (tail_externs Wrap) 8 boot_display 0 (replicate 100 0))) 0 [] \<and>
   \<not> row_shows (world (kernel_main (tail_externs Wrap) 8 boot_display 0 (replicate 100 0))) 0 (ascii ''1'')"
proof -
  let ?y = "tail_externs Wrap"
  let ?wy = "world (kernel_main ?y 8 boot_display 0 (replicate 100 0))"
  have len: "length (cells boot_display) = 2000"
    by (simp add: boot_display_def VGA_WIDTH_def VGA_HEIGHT_def)
  have c: "calls (kernel_main x 178 boot_display 0 (replicate 100 0)) =
      Call_clear_screen # cycle_calls" for x :: "display externs"
    using kernel_main_passes_calls [of 35 x boot_display 0 "replicate 100 0"]
    by (simp add: cycle_calls_def)
  have r: "\<not> row_shows (world (kernel_main (spec_externs p) 178 boot_display 0 (replicate 100 0)))
        34 (ascii ''35'')" for p
    using spec_kernel_main_cells_length [OF len] by (rule no_row_beyond_last) simp
  have w0: "\<not> row_shows (world (kernel_main (spec_externs Wrap) 178 boot_display 0
      (replicate 100 0))) 0 (ascii ''1'')"
  proof
    assume "row_shows (world (kernel_main (spec_externs Wrap) 178 boot_display 0
        (replicate 100 0))) 0 (ascii ''1'')"
    then have "row_glyphs (world (kernel_main (spec_externs Wrap) 178 boot_display 0
        (replicate 100 0))) 0 ! 0 = 0x31"
      by (simp add: row_shows_def ascii_def)
    then show False
      by (simp add: wrap_first_row_after_35)
  qed
  have t1: "within_contract (int_to_string_tail 1 (replicate 100 0) 10) (replicate 100 0) =
      (replicate 98 0 @ [0x31, 0], 98)"
    by (simp add: within_contract_def int_to_string_tail_1)
  have "c_string (replicate 98 0 @ [0x31] @ 0 # []) (length (replicate 98 (0 :: byte))) = [0x31]"
    by (rule c_string_at_offset) simp
  then have t2: "c_string (replicate 98 0 @ [0x31, 0]) 98 = ascii ''1''"
    by (simp add: ascii_def)
  have "cells (clear_screen boot_display) = replicate (VGA_WIDTH * VGA_HEIGHT) blank_cell"
    by (rule clear_screen_cells) (simp add: boot_display_def)
  then have "cells ?wy = lines_screen (terminal_color boot_display) 0"
    by (simp add: tail_first_pass lines_screen_0)
  then have y0: "row_shows ?wy 0 []"
    by (rule row_shows_blank) simp_all
  then have y1: "\<not> row_shows ?wy 0 (ascii ''1'')"
    by (rule blank_row_is_not_1)
  from c r wrap_first_row_after_35 w0 tail_first_pass [THEN conjunct1] t1 t2 y0 y1
  show ?thesis
    by (intro conjI)
qed

text \<open>
  C5, amended. Take the contracts of \<^verbatim>\<open>clear_screen\<close>, \<^verbatim>\<open>print_string\<close> and
  \<^verbatim>\<open>print_nl\<close> (either policy), and any \<^verbatim>\<open>int_to_string\<close> that, for a value
  from 1 to 35 in radix 10, writes the decimal text of the value starting at the first
  byte of the caller's 100-byte buffer and nowhere outside the buffer. Then for every
  \<open>k\<close> up to 24: after exactly \<open>k\<close> passes of print and newline, rows 0 to
  \<open>k - 1\<close> of the Display Buffer contain the decimal texts of 1 to \<open>k\<close> in order,
  the rows from \<open>k\<close> on are blank, and the cursor is at the start of row \<open>k\<close>.
\<close>

theorem boot_loop_rows_before_wrap:
  assumes "\<forall>v buff. 1 \<le> sint v \<and> sint v \<le> 35 \<and> length buff = LINE_SIZE \<longrightarrow>
             length (fst (f v buff 10)) = LINE_SIZE \<and>
             c_string (fst (f v buff 10)) 0 = format_int (sint v) 10"
    and "length (cells d) = VGA_WIDTH * VGA_HEIGHT" and "length line0 = LINE_SIZE"
    and "k \<le> 24"
  shows "calls (kernel_main ((spec_externs p)\<lparr>ext_int_to_string := f\<rparr>) (3 + 5 * k) d i0 line0) =
           Call_clear_screen # concat (map pass_calls [1..<1 + k]) \<and>
         (\<forall>r<k. row_shows
                   (world (kernel_main ((spec_externs p)\<lparr>ext_int_to_string := f\<rparr>)
                             (3 + 5 * k) d i0 line0))
                   r (format_int (int r + 1) 10)) \<and>
         (\<forall>r. k \<le> r \<and> r < VGA_HEIGHT \<longrightarrow>
              row_shows
                (world (kernel_main ((spec_externs p)\<lparr>ext_int_to_string := f\<rparr>)
                          (3 + 5 * k) d i0 line0))
                r []) \<and>
         terminal_row
           (world (kernel_main ((spec_externs p)\<lparr>ext_int_to_string := f\<rparr>)
                     (3 + 5 * k) d i0 line0)) = k \<and>
         terminal_column
           (world (kernel_main ((spec_externs p)\<lparr>ext_int_to_string := f\<rparr>)
                     (3 + 5 * k) d i0 line0)) = 0"
proof -
  let ?x = "(spec_externs p)\<lparr>ext_int_to_string := f\<rparr>"
  let ?w = "world (kernel_main ?x (3 + 5 * k) d i0 line0)"
  have "printed (terminal_color d) k (kernel_main ?x (3 + 5 * k) d i0 line0)"
    using assms by (rule kernel_main_printed_at_start)
  then have w: "cells ?w = lines_screen (terminal_color d) k"
    and row: "terminal_row ?w = k" and col: "terminal_column ?w = 0"
    by (simp_all add: printed_def)
  have c: "calls (kernel_main ?x (3 + 5 * k) d i0 line0) =
           Call_clear_screen # concat (map pass_calls [1..<1 + k])"
    using assms(4) by (intro kernel_main_passes_calls) simp
  have texts: "\<forall>r<k. row_shows ?w r (format_int (int r + 1) 10)"
  proof (intro allI impI)
    fix r
    assume r: "r < k"
    then have "length (format_int (int r + 1) 10) \<le> 2"
      using assms(4) by (intro format_int_small_length) simp_all
    then have "length (format_int (int r + 1) 10) \<le> 80"
      by simp
    with w r show "row_shows ?w r (format_int (int r + 1) 10)"
      using assms(4) by (intro row_shows_line [where a = "terminal_color d" and j = k]) simp_all
  qed
  have blanks: "\<forall>r. k \<le> r \<and> r < VGA_HEIGHT \<longrightarrow> row_shows ?w r []"
  proof (intro allI impI)
    fix r
    assume "k \<le> r \<and> r < VGA_HEIGHT"
    with w show "row_shows ?w r []"
      by (intro row_shows_blank [where a = "terminal_color d" and j = k])
        (simp_all add: VGA_HEIGHT_def)
  qed
  from c texts blanks row col show ?thesis
    by (intro conjI)
qed

theorem boot_loop_rows_before_wrap_witness:
  "length (cells boot_display) = VGA_WIDTH * VGA_HEIGHT \<and>
   length (replicate 100 (0 :: byte)) = LINE_SIZE \<and> (2 :: nat) \<le> 24 \<and>
   fst (within_contract (int_to_string 35 (replicate 100 0) 10) (replicate 100 0)) =
     [0x33, 0x35, 0] @ replicate 97 0 \<and>
   c_string ([0x33, 0x35, 0] @ replicate 97 0) 0 = format_int (sint (35 :: int32)) 10 \<and>
   row_shows (world (kernel_main (spec_externs Wrap) 13 boot_display 0 (replicate 100 0))) 0
     (ascii ''1'') \<and>
   row_shows (world (kernel_main (spec_externs Wrap) 13 boot_display 0 (replicate 100 0))) 1
     (ascii ''2'') \<and>
   row_shows (world (kernel_main (spec_externs Wrap) 13 boot_display 0 (replicate 100 0))) 2
     [] \<and>
   terminal_row (world (kernel_main (spec_externs Wrap) 13 boot_display 0 (replicate 100 0))) = 2"
proof -
  have a: "length (cells boot_display) = VGA_WIDTH * VGA_HEIGHT"
    by (simp add: boot_display_def)
  have b: "length (replicate 100 (0 :: byte)) = LINE_SIZE"
    by (simp add: LINE_SIZE_def)
  have c: "(2 :: nat) \<le> 24"
    by simp
  have e: "3 \<le> length (replicate 100 (0 :: byte))"
    by simp
  have f1: "fst (within_contract (int_to_string 35 (replicate 100 0) 10) (replicate 100 0)) =
      [0x33, 0x35, 0] @ replicate 97 0"
    using int_to_string_35 [OF e] by (simp add: within_contract_def)
  have f2: "c_string ([0x33, 0x35, 0] @ replicate 97 0) 0 = format_int (sint (35 :: int32)) 10"
    by (simp add: c_string_def format_int_35)
  let ?w = "world (kernel_main (spec_externs Wrap) 13 boot_display 0 (replicate 100 0))"
  have n: "3 + 5 * 2 = (13 :: nat)"
    by simp
  note run = boot_loop_rows_before_wrap
      [where f = "\<lambda>v buff r. within_contract (int_to_string v buff r) buff" and p = Wrap
         and ?i0.0 = 0,
       OF int_to_string_at_start a b c, unfolded n spec_externs_update]
  note texts = run [THEN conjunct2, THEN conjunct1]
  note blanks = run [THEN conjunct2, THEN conjunct2, THEN conjunct1]
  note row = run [THEN conjunct2, THEN conjunct2, THEN conjunct2, THEN conjunct1]
  have "row_shows ?w 0 (format_int 1 10)"
    using texts [rule_format, of 0] by simp
  then have r0: "row_shows ?w 0 (ascii ''1'')"
    by (simp add: ascii_def format_int_1)
  have "row_shows ?w 1 (format_int 2 10)"
    using texts [rule_format, of 1] by simp
  then have r1: "row_shows ?w 1 (ascii ''2'')"
    by (simp add: ascii_def format_int_2)
  have r2: "row_shows ?w 2 []"
    using blanks [rule_format, of 2] by (simp add: VGA_HEIGHT_def)
  from a b c f1 f2 r0 r1 r2 row show ?thesis
    by (intro conjI)
qed

end
